theory Spec2Isabelle
  imports Main "HOL-Library.Word" "HOL-Library.Sublist" "HOL-Library.List_Lexorder"
    "HOL-Library.Multiset" "HOL-Library.AList"
begin

section \<open>Strings\<close>

text \<open>
  A JavaScript string is a sequence of UTF-16 code units: \<open>length\<close>, \<open>substring\<close>, the
  regular expressions of the parser (none has the \<open>u\<close> flag) and the default order of
  \<open>Array.prototype.sort\<close> all work on code units. \<open>js\<close> embeds an ASCII literal.
\<close>

type_synonym jschar = "16 word"
type_synonym jsstring = "jschar list"

definition js :: "string \<Rightarrow> jsstring" where
  "js s = map of_char s"

text \<open>The class \<open>\s\<close> of an ECMAScript regular expression: WhiteSpace and LineTerminator.\<close>

definition isSpace :: "jschar \<Rightarrow> bool" where
  "isSpace c \<longleftrightarrow>
     c = 0x09 \<or> c = 0x0A \<or> c = 0x0B \<or> c = 0x0C \<or> c = 0x0D \<or> c = 0x20 \<or> c = 0xA0 \<or>
     c = 0x1680 \<or> (0x2000 \<le> c \<and> c \<le> 0x200A) \<or> c = 0x2028 \<or> c = 0x2029 \<or>
     c = 0x202F \<or> c = 0x205F \<or> c = 0x3000 \<or> c = 0xFEFF"

text \<open>The class \<open>[\r\n]\<close>.\<close>

definition isNewline :: "jschar \<Rightarrow> bool" where
  "isNewline c \<longleftrightarrow> c = 0x0D \<or> c = 0x0A"

text \<open>\<open>Array.prototype.join\<close> on an array of strings.\<close>

fun join :: "jsstring \<Rightarrow> jsstring list \<Rightarrow> jsstring" where
  "join sep [] = []"
| "join sep [x] = x"
| "join sep (x # y # ys) = x @ sep @ join sep (y # ys)"

text \<open>
  \<open>s.replace(pat, '')\<close> with a string pattern: the first occurrence of \<open>pat\<close> is removed
  (the replacement is the empty string, so no \<open>$\<close> pattern is involved).
\<close>

fun removeFirst :: "jsstring \<Rightarrow> jsstring \<Rightarrow> jsstring" where
  "removeFirst pat [] = []"
| "removeFirst pat (c # cs) =
     (if prefix pat (c # cs) then drop (length pat) (c # cs) else c # removeFirst pat cs)"

text \<open>\<open>s.includes(pat)\<close>.\<close>

fun includesStr :: "jsstring \<Rightarrow> jsstring \<Rightarrow> bool" where
  "includesStr [] pat = (pat = [])"
| "includesStr (c # cs) pat = (prefix pat (c # cs) \<or> includesStr cs pat)"

section \<open>The tree node model\<close>

text \<open>
  \<open>FileStructure\<close> objects are mutable and refer to each other in both directions
  (\<open>children\<close> downwards, \<open>parent\<close> upwards), and \<open>isLastChild\<close> compares them by identity.
  They live in a store: a reference is an index into the list of allocated objects, and
  \<open>null\<close> is \<open>None\<close>.
\<close>

type_synonym ref = nat

record FileStructure =
  name :: jsstring
  children :: "ref list"
  indentCount :: int
  parent :: "ref option"

type_synonym heap = "FileStructure list"

section \<open>Errors\<close>

text \<open>The decimal digits of a number, as a template literal prints it.\<close>

function decimal :: "nat \<Rightarrow> jsstring" where
  "decimal n =
     (if n < 10 then [of_nat (48 + n)]
      else decimal (n div 10) @ [of_nat (48 + n mod 10)])"
  by pat_completeness auto
termination
  by (relation "measure id") auto

text \<open>
  One constructor for each \<open>throw\<close> of the source. The two \<open>throw\<close> statements of the
  attachment loop of \<open>parseInput\<close> build the same message; they stay apart here
  (\<open>IndentJump\<close> for the jump rule, \<open>EmptyPath\<close> for the emptied ancestor stack) and
  \<open>errorMessage\<close> gives the text a caller sees. \<open>TypeError\<close> is the engine's own
  exception for a property read on \<open>undefined\<close>; the wording of its message is the
  engine's and only its kind is kept.
\<close>

datatype error =
    InputRequired
  | CannotParseLine nat jsstring
  | IndentJump jsstring
  | EmptyPath jsstring
  | StructureRequired
  | UnknownCharset jsstring
  | TypeError

fun errorMessage :: "error \<Rightarrow> jsstring" where
  "errorMessage InputRequired = js ''Input must be a non-empty string''"
| "errorMessage (CannotParseLine n l) =
     js ''Cannot parse line '' @ decimal n @ js '': '' @ [0x22] @ l @ [0x22] @
     js ''. Expected valid indentation.''"
| "errorMessage (IndentJump n) = js ''Bad indentation found at item: '' @ n"
| "errorMessage (EmptyPath n) = js ''Bad indentation found at item: '' @ n"
| "errorMessage StructureRequired = js ''Structure is required''"
| "errorMessage (UnknownCharset c) = js ''Unknown charset: '' @ c"
| "errorMessage TypeError = js ''TypeError''"

section \<open>The indentation parser\<close>

text \<open>\<open>input.match(/[^\r\n]+/g) || []\<close>: the maximal non-empty runs free of CR and LF.\<close>

function newlineSplitter :: "jsstring \<Rightarrow> jsstring list" where
  "newlineSplitter [] = []"
| "newlineSplitter (c # cs) =
     (if isNewline c then newlineSplitter cs
      else takeWhile (\<lambda>x. \<not> isNewline x) (c # cs)
           # newlineSplitter (dropWhile (\<lambda>x. \<not> isNewline x) cs))"
  by pat_completeness auto
termination
  by (relation "measure length") (auto simp: less_Suc_eq_le length_dropWhile_le)

text \<open>\<open>/^\s*$/.test(l)\<close>.\<close>

definition onlyWhitespace :: "jsstring \<Rightarrow> bool" where
  "onlyWhitespace l = list_all isSpace l"

text \<open>
  \<open>/^((\s*)(?:-\s)?)/.exec(line)\<close>: the result holds group 1 (the leading whitespace and
  the bullet, when there is one) and group 2 (the leading whitespace). \<open>\s*\<close> is greedy
  and the bullet is optional, so the expression matches every line.
\<close>

definition leadingWhitespaceAndBullet :: "jsstring \<Rightarrow> (jsstring \<times> jsstring) option" where
  "leadingWhitespaceAndBullet line =
     (let ws = takeWhile isSpace line;
          bullet = (case dropWhile isSpace line of
                      d # s # _ \<Rightarrow> if d = 0x2D \<and> isSpace s then [d, s] else []
                    | _ \<Rightarrow> [])
      in Some (ws @ bullet, ws))"

text \<open>The callback of \<open>lines.map\<close> in \<open>splitInput\<close>, applied from index \<open>index\<close> on.\<close>

fun mapLines :: "nat \<Rightarrow> jsstring list \<Rightarrow> error + FileStructure list" where
  "mapLines index [] = Inr []"
| "mapLines index (line # ls) =
     (case leadingWhitespaceAndBullet line of
        None \<Rightarrow> Inl (CannotParseLine (index + 1) line)
      | Some (g1, g2) \<Rightarrow>
          (case mapLines (index + 1) ls of
             Inl e \<Rightarrow> Inl e
           | Inr rest \<Rightarrow>
               Inr (\<lparr>name = removeFirst g1 line, children = [],
                     indentCount = int (length g2), parent = None\<rparr> # rest)))"

definition splitInput :: "jsstring \<Rightarrow> error + FileStructure list" where
  "splitInput input =
     (let lines = filter (\<lambda>l. \<not> onlyWhitespace l) (newlineSplitter input)
      in if length lines = 0 then Inr [] else mapLines 0 lines)"

text \<open>
  The ancestor stack \<open>path\<close> is a list of references with its top at the head.
  \<open>popPath\<close> is the inner \<open>while\<close> loop of \<open>parseInput\<close>.
\<close>

fun popPath :: "heap \<Rightarrow> int \<Rightarrow> ref list \<Rightarrow> ref list" where
  "popPath h ic [] = []"
| "popPath h ic (t # ts) =
     (if indentCount (h ! t) \<ge> ic then popPath h ic ts else t # ts)"

text \<open>
  One iteration of the \<open>for\<close> loop of \<open>parseInput\<close>, on the store and the ancestor
  stack. An object that \<open>splitInput\<close> returned gets its place in the store when the loop
  reaches it (no other object refers to it before), so the store always holds the root
  and the items attached so far, in document order.
\<close>

fun attachStep :: "heap \<times> ref list \<Rightarrow> FileStructure \<Rightarrow> error + heap \<times> ref list" where
  "attachStep (h, path) s =
     (case path of
        [] \<Rightarrow> Inl TypeError
      | t # _ \<Rightarrow>
          (let lastIndent = indentCount (h ! t) in
           if indentCount s > lastIndent + 2 \<and> lastIndent \<noteq> - 1
           then Inl (IndentJump (name s))
           else (case popPath h (indentCount s) path of
                   [] \<Rightarrow> Inl (EmptyPath (name s))
                 | par # rest \<Rightarrow>
                     Inr (h[par := (h ! par)\<lparr>children := children (h ! par) @ [length h]\<rparr>]
                            @ [s\<lparr>parent := Some par\<rparr>],
                          length h # par # rest))))"

text \<open>The \<open>for\<close> loop: the first exception ends it.\<close>

fun attachLoop :: "heap \<times> ref list \<Rightarrow> FileStructure list \<Rightarrow> error + heap \<times> ref list" where
  "attachLoop st [] = Inr st"
| "attachLoop st (s # ss) =
     (case attachStep st s of Inl e \<Rightarrow> Inl e | Inr st' \<Rightarrow> attachLoop st' ss)"

definition rootNode :: FileStructure where
  "rootNode = \<lparr>name = js ''.'', children = [], indentCount = - 1, parent = None\<rparr>"

text \<open>\<open>parseInput\<close> returns the store it built and the reference of the root in it.\<close>

definition parseInput :: "jsstring \<Rightarrow> error + (heap \<times> ref)" where
  "parseInput input =
     (if input = [] then Inl InputRequired
      else (case splitInput input of
              Inl e \<Rightarrow> Inl e
            | Inr structures \<Rightarrow>
                (case attachLoop ([rootNode], [0]) structures of
                   Inl e \<Rightarrow> Inl e
                 | Inr (h, path) \<Rightarrow> Inr (h, 0))))"

section \<open>The line-drawing renderer\<close>

text \<open>
  A property of an options object is absent, present with the value \<open>undefined\<close>, or
  present with a value of its type: the spread \<open>{ ...defaultOptions, ...options }\<close>
  copies every present property, \<open>undefined\<close> included.
\<close>

datatype 'a optional = Absent | Undefined | Val 'a

record GenerateTreeOptions =
  charset :: "jsstring optional"
  trailingDirSlash :: "bool optional"
  fullPath :: "bool optional"
  rootDot :: "bool optional"

definition defaultOptions :: GenerateTreeOptions where
  "defaultOptions =
     \<lparr>charset = Val (js ''utf-8''), trailingDirSlash = Val False,
      fullPath = Val False, rootDot = Val True\<rparr>"

text \<open>The empty object literal \<open>{}\<close>.\<close>

definition emptyOptions :: GenerateTreeOptions where
  "emptyOptions =
     \<lparr>charset = Absent, trailingDirSlash = Absent, fullPath = Absent, rootDot = Absent\<rparr>"

fun override :: "'a optional \<Rightarrow> 'a optional \<Rightarrow> 'a optional" where
  "override a Absent = a"
| "override a b = b"

text \<open>\<open>{ ...a, ...b }\<close>.\<close>

definition spread :: "GenerateTreeOptions \<Rightarrow> GenerateTreeOptions \<Rightarrow> GenerateTreeOptions" where
  "spread a b =
     \<lparr>charset = override (charset a) (charset b),
      trailingDirSlash = override (trailingDirSlash a) (trailingDirSlash b),
      fullPath = override (fullPath a) (fullPath b),
      rootDot = override (rootDot a) (rootDot b)\<rparr>"

text \<open>The truth value of a boolean property in a condition.\<close>

fun truthy :: "bool optional \<Rightarrow> bool" where
  "truthy (Val b) = b"
| "truthy _ = False"

text \<open>\<open>options.charset || 'utf-8'\<close>: the empty string is falsy as well.\<close>

fun charsetOr :: "jsstring optional \<Rightarrow> jsstring" where
  "charsetOr (Val c) = (if c = [] then js ''utf-8'' else c)"
| "charsetOr _ = js ''utf-8''"

record lineStrings =
  CHILD :: jsstring
  LAST_CHILD :: jsstring
  DIRECTORY :: jsstring
  EMPTY :: jsstring

text \<open>
  Modelled from the spec: the table \<open>LINE_STRINGS\<close> of \<open>line-strings.ts\<close>, a file that is
  not among the sources. The four strings of each character set are those of the table
  in the specification of the renderer (the tests of \<open>generateTree\<close> expect the same);
  a character set that is not in the table has no entry. The box-drawing characters are
  U+251C, U+2514, U+2502 and U+2500.
\<close>

definition LINE_STRINGS :: "jsstring \<Rightarrow> lineStrings option" where
  "LINE_STRINGS c =
     (if c = js ''ascii'' then
        Some \<lparr>CHILD = js ''|-- '', LAST_CHILD = js ''`-- '',
              DIRECTORY = js ''|   '', EMPTY = js ''    ''\<rparr>
      else if c = js ''utf-8'' then
        Some \<lparr>CHILD = [0x251C, 0x2500, 0x2500, 0x20], LAST_CHILD = [0x2514, 0x2500, 0x2500, 0x20],
              DIRECTORY = [0x2502, 0x20, 0x20, 0x20], EMPTY = js ''    ''\<rparr>
      else None)"

definition isLastChild :: "heap \<Rightarrow> ref \<Rightarrow> bool" where
  "isLastChild h structure =
     (case parent (h ! structure) of
        None \<Rightarrow> False
      | Some p \<Rightarrow>
          if length (children (h ! p)) = 0 then False
          else children (h ! p) ! (length (children (h ! p)) - 1) = structure)"

text \<open>
  The loop \<open>while (current && current.name !== '.')\<close> that collects the names on the way
  up; \<open>getName\<close> and \<open>getFullPath\<close> contain the same loop. A loop that does not end
  has the value \<open>None\<close>.
\<close>

partial_function (option) pathPartsLoop ::
  "heap \<Rightarrow> ref option \<Rightarrow> jsstring list \<Rightarrow> jsstring list option" where
  "pathPartsLoop h current pathParts =
     (case current of
        None \<Rightarrow> Some pathParts
      | Some c \<Rightarrow>
          if name (h ! c) \<noteq> js ''.''
          then pathPartsLoop h (parent (h ! c)) (name (h ! c) # pathParts)
          else Some pathParts)"

declare pathPartsLoop.simps [code]

text \<open>\<open>/\/\s*$/.test(name)\<close>: the last character that is not whitespace is a slash.\<close>

definition endsWithSlash :: "jsstring \<Rightarrow> bool" where
  "endsWithSlash nm =
     (case dropWhile isSpace (rev nm) of [] \<Rightarrow> False | c # _ \<Rightarrow> c = 0x2F)"

definition getName :: "heap \<Rightarrow> ref \<Rightarrow> GenerateTreeOptions \<Rightarrow> jsstring option" where
  "getName h structure options =
     (let nameChunks =
            [name (h ! structure)] @
            (if truthy (trailingDirSlash options) \<and> length (children (h ! structure)) > 0 \<and>
                \<not> endsWithSlash (name (h ! structure))
             then [js ''/''] else [])
      in if truthy (fullPath options) \<and> parent (h ! structure) \<noteq> None
         then (case pathPartsLoop h (parent (h ! structure)) [] of
                 None \<Rightarrow> None
               | Some pathParts \<Rightarrow>
                   if length pathParts > 0
                   then Some (join [] ((join (js ''/'') pathParts @ js ''/'') # nameChunks))
                   else Some (join [] nameChunks))
         else Some (join [] nameChunks))"

text \<open>The loop \<open>while (current && current.parent)\<close> of \<open>getAsciiLine\<close>.\<close>

partial_function (option) prefixLoop ::
  "heap \<Rightarrow> lineStrings \<Rightarrow> ref option \<Rightarrow> jsstring list \<Rightarrow> jsstring list option" where
  "prefixLoop h lines current chunks =
     (case current of
        None \<Rightarrow> Some chunks
      | Some c \<Rightarrow>
          if parent (h ! c) \<noteq> None
          then prefixLoop h lines (parent (h ! c))
                 ((if isLastChild h c then EMPTY lines else DIRECTORY lines) # chunks)
          else Some chunks)"

declare prefixLoop.simps [code]

text \<open>
  \<open>getAsciiLine\<close> returns \<open>null\<close> (here \<open>Inr None\<close>) for a root that is not rendered.
\<close>

definition getAsciiLine ::
  "heap \<Rightarrow> ref \<Rightarrow> GenerateTreeOptions \<Rightarrow> (error + jsstring option) option" where
  "getAsciiLine h structure options =
     (let cs = charsetOr (charset options) in
      case LINE_STRINGS cs of
        None \<Rightarrow> Some (Inl (UnknownCharset cs))
      | Some lines \<Rightarrow>
          if parent (h ! structure) = None
          then Some (Inr (if truthy (rootDot options) then Some (name (h ! structure)) else None))
          else (case getName h structure options of
                  None \<Rightarrow> None
                | Some nm \<Rightarrow>
                    (case prefixLoop h lines (parent (h ! structure))
                            [if isLastChild h structure then LAST_CHILD lines else CHILD lines, nm] of
                       None \<Rightarrow> None
                     | Some chunks \<Rightarrow>
                         Some (Inr (Some
                           (drop (if truthy (rootDot options) then 0 else length (CHILD lines))
                              (join [] chunks)))))))"

text \<open>
  The traversal loop of \<open>generateTree\<close>. The stack has its top at the head, so pushing
  the children from the last to the first puts \<open>children\<close> in front of it.
\<close>

partial_function (option) treeLoop ::
  "heap \<Rightarrow> GenerateTreeOptions \<Rightarrow> ref list \<Rightarrow> jsstring list \<Rightarrow> (error + jsstring list) option"
  where
  "treeLoop h options stack lines =
     (case stack of
        [] \<Rightarrow> Some (Inr lines)
      | item # rest \<Rightarrow>
          (case getAsciiLine h item options of
             None \<Rightarrow> None
           | Some (Inl e) \<Rightarrow> Some (Inl e)
           | Some (Inr line) \<Rightarrow>
               treeLoop h options (children (h ! item) @ rest)
                 (case line of None \<Rightarrow> lines | Some l \<Rightarrow> lines @ [l])))"

declare treeLoop.simps [code]

text \<open>The array \<open>lines\<close> of \<open>generateTree\<close> when its loop has ended.\<close>

definition generateTreeLines ::
  "heap \<Rightarrow> ref option \<Rightarrow> GenerateTreeOptions option \<Rightarrow> (error + jsstring list) option" where
  "generateTreeLines h structure options =
     (case structure of
        None \<Rightarrow> Some (Inl StructureRequired)
      | Some root \<Rightarrow>
          treeLoop h
            (spread defaultOptions (case options of None \<Rightarrow> emptyOptions | Some opts \<Rightarrow> opts))
            [root] [])"

definition generateTree ::
  "heap \<Rightarrow> ref option \<Rightarrow> GenerateTreeOptions option \<Rightarrow> (error + jsstring) option" where
  "generateTree h structure options =
     map_option (map_sum id (join (js [CHR 0x0A]))) (generateTreeLines h structure options)"

section \<open>The structured serializers\<close>

subsection \<open>JavaScript values\<close>

text \<open>
  The values that the serializers build before they hand them to \<open>JSON.stringify\<close>.
  An object is the list of its own properties in the order of their creation, and its
  prototype: \<open>ObjectPrototype\<close> stands for \<open>Object.prototype\<close>, which every object
  literal starts with, and \<open>JNull\<close> for no prototype.
\<close>

datatype jsvalue =
    JNull
  | ObjectPrototype
  | JString jsstring
  | JArray "jsvalue list"
  | JObject "(jsstring \<times> jsvalue) list" jsvalue

text \<open>
  Whether a lookup of \<open>__proto__\<close> that starts at this prototype ends at the accessor
  of \<open>Object.prototype\<close>: an own data property of that name on the way shadows it, and a
  chain that ends in \<open>null\<close> never reaches it.
\<close>

fun reachesProtoSetter :: "jsvalue \<Rightarrow> bool" where
  "reachesProtoSetter ObjectPrototype = True"
| "reachesProtoSetter (JObject props proto) =
     (if js ''__proto__'' \<in> fst ` set props then False else reachesProtoSetter proto)"
| "reachesProtoSetter (JArray xs) = True"
| "reachesProtoSetter _ = False"

fun isObjectOrNull :: "jsvalue \<Rightarrow> bool" where
  "isObjectOrNull (JString s) = False"
| "isObjectOrNull _ = True"

text \<open>
  The assignment \<open>obj[key] = v\<close> on an ordinary object. An own property is updated in
  place. Otherwise the key is looked up along the prototype chain: the only accessor there
  is \<open>__proto__\<close> of \<open>Object.prototype\<close>, whose setter replaces the prototype of \<open>obj\<close>
  (by an object or \<open>null\<close>; any other value is ignored) and creates no property; in every
  other case a new own property is added after the existing ones.
\<close>

fun setProperty :: "jsvalue \<Rightarrow> jsstring \<Rightarrow> jsvalue \<Rightarrow> jsvalue" where
  "setProperty (JObject props proto) key v =
     (if key \<in> fst ` set props then JObject (AList.update key v props) proto
      else if key = js ''__proto__'' \<and> reachesProtoSetter proto
      then (if isObjectOrNull v then JObject props v else JObject props proto)
      else JObject (props @ [(key, v)]) proto)"
| "setProperty obj key v = obj"

text \<open>The own property keys of an object (without their order of enumeration).\<close>

fun ownKeys :: "jsvalue \<Rightarrow> jsstring set" where
  "ownKeys (JObject props proto) = fst ` set props"
| "ownKeys _ = {}"

text \<open>The value of an own property.\<close>

fun ownValue :: "jsvalue \<Rightarrow> jsstring \<Rightarrow> jsvalue option" where
  "ownValue (JObject props proto) key = map_of props key"
| "ownValue _ key = None"

subsection \<open>Loops over the children\<close>

text \<open>
  \<open>for (const child of item.children)\<close> and \<open>item.children.forEach\<close> with a body that
  calls the enclosing function again: the body takes the child and the state that the
  loop updates. A body that does not return ends the loop without a value. The recursion
  of the serializers is as deep as the tree; the call stack is taken to be unbounded.
\<close>

fun forEachM :: "('a \<Rightarrow> 's \<Rightarrow> 's option) \<Rightarrow> 'a list \<Rightarrow> 's \<Rightarrow> 's option" where
  "forEachM f [] s = Some s"
| "forEachM f (x # xs) s = (case f x s of None \<Rightarrow> None | Some s' \<Rightarrow> forEachM f xs s')"

lemma forEachM_mono [partial_function_mono]:
  assumes "\<And>x s. mono_option (\<lambda>g. f g x s)"
  shows "mono_option (\<lambda>g. forEachM (f g) xs s)"
proof (induction xs arbitrary: s)
  case Nil
  show ?case by (simp add: option.const_mono)
next
  case (Cons x xs)
  have "mono_option (\<lambda>g. Option.bind (f g x s) (\<lambda>s'. forEachM (f g) xs s'))"
    by (rule bind_mono) (rule assms, rule Cons.IH)
  moreover have "(\<lambda>g. forEachM (f g) (x # xs) s)
      = (\<lambda>g. Option.bind (f g x s) (\<lambda>s'. forEachM (f g) xs s'))"
    by (auto simp: fun_eq_iff split: option.splits)
  ultimately show ?case by simp
qed

subsection \<open>Full paths\<close>

definition getFullPath :: "heap \<Rightarrow> ref \<Rightarrow> jsstring option" where
  "getFullPath h item = map_option (join (js ''/'')) (pathPartsLoop h (Some item) [])"

subsection \<open>Nested JSON\<close>

partial_function (option) createNestedObject :: "heap \<Rightarrow> ref \<Rightarrow> jsvalue option" where
  "createNestedObject h item =
     (if length (children (h ! item)) = 0
      then (if includesStr (name (h ! item)) (js ''dir'')
            then Some (JObject [] ObjectPrototype)
            else Some JNull)
      else forEachM
             (\<lambda>child result.
                Option.bind (createNestedObject h child)
                  (\<lambda>v. Some (setProperty result (name (h ! child)) v)))
             (children (h ! item)) (JObject [] ObjectPrototype))"

declare createNestedObject.simps [code]

text \<open>The object \<open>rootObj\<close> that \<open>formatNestedJson\<close> hands to \<open>JSON.stringify\<close>.\<close>

definition nestedRootObj :: "heap \<Rightarrow> ref option \<Rightarrow> (error + jsvalue) option" where
  "nestedRootObj h structure =
     (case structure of
        None \<Rightarrow> Some (Inl StructureRequired)
      | Some root \<Rightarrow>
          (case createNestedObject h root of
             None \<Rightarrow> None
           | Some v \<Rightarrow> Some (Inr (setProperty (JObject [] ObjectPrototype) (name (h ! root)) v))))"

text \<open>
  \<open>stringify\<close> stands for \<open>JSON.stringify(_, null, 2)\<close>, a function of the platform.
\<close>

definition formatNestedJson ::
  "(jsvalue \<Rightarrow> jsstring) \<Rightarrow> heap \<Rightarrow> ref option \<Rightarrow> (error + jsstring) option" where
  "formatNestedJson stringify h structure =
     map_option (map_sum id stringify) (nestedRootObj h structure)"

subsection \<open>Flat JSON\<close>

text \<open>\<open>processItem\<close> of \<open>formatFlatJson\<close>; the state is the pair of \<open>files\<close> and \<open>directories\<close>.\<close>

partial_function (option) flatProcessItem ::
  "heap \<Rightarrow> ref \<Rightarrow> jsvalue list \<times> jsvalue list \<Rightarrow> (jsvalue list \<times> jsvalue list) option" where
  "flatProcessItem h item st =
     (case (if name (h ! item) \<noteq> js ''.''
            then (case getFullPath h item of
                    None \<Rightarrow> None
                  | Some path \<Rightarrow>
                      if length (children (h ! item)) > 0
                      then Some (fst st,
                                 snd st @ [JObject [(js ''path'', JString path)] ObjectPrototype])
                      else Some (fst st @ [JObject [(js ''path'', JString path),
                                                    (js ''type'', JString (js ''file''))]
                                             ObjectPrototype],
                                 snd st))
            else Some st) of
        None \<Rightarrow> None
      | Some st' \<Rightarrow> forEachM (\<lambda>child acc. flatProcessItem h child acc) (children (h ! item)) st')"

declare flatProcessItem.simps [code]

text \<open>The arrays \<open>files\<close> and \<open>directories\<close> when \<open>processItem(structure)\<close> has returned.\<close>

definition flatLists ::
  "heap \<Rightarrow> ref option \<Rightarrow> (error + jsvalue list \<times> jsvalue list) option" where
  "flatLists h structure =
     (case structure of
        None \<Rightarrow> Some (Inl StructureRequired)
      | Some root \<Rightarrow> map_option Inr (flatProcessItem h root ([], [])))"

definition formatFlatJson ::
  "(jsvalue \<Rightarrow> jsstring) \<Rightarrow> heap \<Rightarrow> ref option \<Rightarrow> (error + jsstring) option" where
  "formatFlatJson stringify h structure =
     map_option
       (map_sum id
          (\<lambda>(files, directories).
             stringify (JObject [(js ''files'', JArray files),
                                 (js ''directories'', JArray directories)] ObjectPrototype)))
       (flatLists h structure)"

subsection \<open>Dot-path list\<close>

text \<open>\<open>processItem\<close> of \<open>formatDot\<close>; the state is the array \<open>paths\<close>.\<close>

partial_function (option) dotProcessItem ::
  "heap \<Rightarrow> ref \<Rightarrow> jsstring list \<Rightarrow> jsstring list option" where
  "dotProcessItem h item paths =
     (case (if name (h ! item) \<noteq> js ''.''
            then (case getFullPath h item of
                    None \<Rightarrow> None
                  | Some path \<Rightarrow> Some (paths @ [path]))
            else Some paths) of
        None \<Rightarrow> None
      | Some paths' \<Rightarrow>
          forEachM (\<lambda>child acc. dotProcessItem h child acc) (children (h ! item)) paths')"

declare dotProcessItem.simps [code]

text \<open>
  The array \<open>paths.sort()\<close>: the default order of \<open>sort\<close> compares strings code unit by
  code unit, the lexicographic order of the lists.
\<close>

definition dotPaths :: "heap \<Rightarrow> ref option \<Rightarrow> (error + jsstring list) option" where
  "dotPaths h structure =
     (case structure of
        None \<Rightarrow> Some (Inl StructureRequired)
      | Some root \<Rightarrow> map_option (\<lambda>paths. Inr (sort paths)) (dotProcessItem h root []))"

definition formatDot :: "heap \<Rightarrow> ref option \<Rightarrow> (error + jsstring) option" where
  "formatDot h structure =
     map_option (map_sum id (join (js [CHR 0x0A]))) (dotPaths h structure)"

section \<open>The format dispatcher\<close>

text \<open>
  The four serializers that no property below is about (array JSON, YAML, XML and the
  markdown list) are parameters of the dispatcher.
\<close>

record serializers =
  formatArrayJson :: "heap \<Rightarrow> ref option \<Rightarrow> (error + jsstring) option"
  formatYaml :: "heap \<Rightarrow> ref option \<Rightarrow> (error + jsstring) option"
  formatXml :: "heap \<Rightarrow> ref option \<Rightarrow> (error + jsstring) option"
  formatMarkdown :: "heap \<Rightarrow> ref option \<Rightarrow> (error + jsstring) option"

text \<open>
  \<open>formatTree\<close>; an omitted \<open>options\<close> argument is \<open>{}\<close>, and
  \<open>{ ...options, charset: c }\<close> is \<open>options\<close> with its \<open>charset\<close> replaced.
\<close>

definition formatTree ::
  "serializers \<Rightarrow> (jsvalue \<Rightarrow> jsstring) \<Rightarrow> heap \<Rightarrow> ref option \<Rightarrow> jsstring \<Rightarrow>
   GenerateTreeOptions option \<Rightarrow> (error + jsstring) option" where
  "formatTree ser stringify h structure format options =
     (let opts = (case options of None \<Rightarrow> emptyOptions | Some given \<Rightarrow> given) in
      if structure = None then Some (Inl StructureRequired)
      else if format = js ''ascii''
        then generateTree h structure (Some (opts\<lparr>charset := Val (js ''ascii'')\<rparr>))
      else if format = js ''utf-8''
        then generateTree h structure (Some (opts\<lparr>charset := Val (js ''utf-8'')\<rparr>))
      else if format = js ''json-nested'' then formatNestedJson stringify h structure
      else if format = js ''json-array'' then formatArrayJson ser h structure
      else if format = js ''json-flat'' then formatFlatJson stringify h structure
      else if format = js ''yaml'' then formatYaml ser h structure
      else if format = js ''xml'' then formatXml ser h structure
      else if format = js ''dot'' then formatDot h structure
      else if format = js ''markdown'' then formatMarkdown ser h structure
      else generateTree h structure (Some opts))"

text \<open>
  The fallback as the specification words it: the renderer with the options of the caller
  and the default character set.
\<close>

definition specFallback ::
  "heap \<Rightarrow> ref option \<Rightarrow> GenerateTreeOptions option \<Rightarrow> (error + jsstring) option" where
  "specFallback h structure options =
     generateTree h structure
       (Some ((case options of None \<Rightarrow> emptyOptions | Some given \<Rightarrow> given)
                \<lparr>charset := charset defaultOptions\<rparr>))"

definition recognizedFormats :: "jsstring list" where
  "recognizedFormats =
     [js ''ascii'', js ''utf-8'', js ''json-nested'', js ''json-array'', js ''json-flat'',
      js ''yaml'', js ''xml'', js ''dot'', js ''markdown'']"

text \<open>
  The character set in effect in the renderer: \<open>generateTree\<close> spreads the options over
  the defaults, and \<open>getAsciiLine\<close> reads \<open>options.charset || 'utf-8'\<close> from the result.
\<close>

definition effectiveCharset :: "GenerateTreeOptions option \<Rightarrow> jsstring" where
  "effectiveCharset options =
     charsetOr (charset (spread defaultOptions
       (case options of None \<Rightarrow> emptyOptions | Some given \<Rightarrow> given)))"

section \<open>Well-formed trees\<close>

text \<open>One step from a node to its parent; \<open>null\<close> has none.\<close>

definition parentStep :: "heap \<Rightarrow> ref option \<Rightarrow> ref option" where
  "parentStep h x = (case x of None \<Rightarrow> None | Some a \<Rightarrow> parent (h ! a))"

text \<open>The node \<open>n\<close> steps above \<open>a\<close>, if there is one (\<open>a\<close> itself for \<open>n = 0\<close>).\<close>

definition ancestor :: "heap \<Rightarrow> ref \<Rightarrow> nat \<Rightarrow> ref option" where
  "ancestor h a n = (parentStep h ^^ n) (Some a)"

text \<open>
  The invariants of the node model, for a store that holds one tree and nothing else:
  the root has no parent; every other node has a parent that lists it among its children;
  no node is listed twice, and every listed child points back to the node that lists it;
  the way up from every node ends.
\<close>

definition wellFormed :: "heap \<Rightarrow> ref \<Rightarrow> bool" where
  "wellFormed h root \<longleftrightarrow>
     root < length h \<and> parent (h ! root) = None \<and>
     (\<forall>a \<in> set [0..<length h]. a \<noteq> root \<longrightarrow>
        (case parent (h ! a) of
           None \<Rightarrow> False
         | Some p \<Rightarrow> p < length h \<and> a \<in> set (children (h ! p)))) \<and>
     (\<forall>p \<in> set [0..<length h].
        distinct (children (h ! p)) \<and>
        (\<forall>c \<in> set (children (h ! p)). c < length h \<and> parent (h ! c) = Some p)) \<and>
     (\<forall>a \<in> set [0..<length h]. ancestor h a (length h) = None)"

text \<open>The nodes of the store whose name is not the dot.\<close>

definition namedNodes :: "heap \<Rightarrow> ref list" where
  "namedNodes h = filter (\<lambda>a. name (h ! a) \<noteq> js ''.'') [0..<length h]"

text \<open>The first \<open>j\<close> nodes on the way up from \<open>d\<close>, \<open>d\<close> itself first.\<close>

definition wayUp :: "heap \<Rightarrow> ref \<Rightarrow> nat \<Rightarrow> ref list" where
  "wayUp h d j = map (\<lambda>i. the (ancestor h d i)) [0..<j]"

text \<open>
  The shape of a store as a term: the tree below a node, each node with its reference.
  \<open>shape h t\<close> says that the store has the children that \<open>t\<close> has, all the way down.
\<close>

datatype tree = Node ref "tree list"

fun rootOf :: "tree \<Rightarrow> ref" where
  "rootOf (Node a ts) = a"

fun preorder :: "tree \<Rightarrow> ref list" where
  "preorder (Node a ts) = a # concat (map preorder ts)"

fun shape :: "heap \<Rightarrow> tree \<Rightarrow> bool" where
  "shape h (Node a ts) \<longleftrightarrow>
     a < length h \<and> children (h ! a) = map rootOf ts \<and> (\<forall>t \<in> set ts. shape h t)"

text \<open>The lines that \<open>generateTree\<close> pushes for one node: at most one.\<close>

definition emitted :: "heap \<Rightarrow> GenerateTreeOptions \<Rightarrow> ref \<Rightarrow> jsstring list" where
  "emitted h options a =
     (case getAsciiLine h a options of Some (Inr (Some l)) \<Rightarrow> [l] | _ \<Rightarrow> [])"


section \<open>The invariant of the attachment loop\<close>

text \<open>
  What holds of the store and the ancestor stack before every iteration of the loop of
  \<open>parseInput\<close>: the root is at reference 0 with the sentinel indent; every other node
  has a non-negative indent and a parent with a smaller reference that lists it; the
  children of a node are listed by increasing reference and point back to it; the stack
  is not empty and the root is at its bottom.
\<close>

definition parserInv :: "heap \<Rightarrow> ref list \<Rightarrow> bool" where
  "parserInv h path \<longleftrightarrow>
     h \<noteq> [] \<and> parent (h ! 0) = None \<and> indentCount (h ! 0) = - 1 \<and> name (h ! 0) = js ''.'' \<and>
     (\<forall>a<length h. 0 < a \<longrightarrow>
        0 \<le> indentCount (h ! a) \<and> (\<exists>p<a. parent (h ! a) = Some p \<and> a \<in> set (children (h ! p)))) \<and>
     (\<forall>p<length h. sorted_wrt (<) (children (h ! p)) \<and>
        (\<forall>c \<in> set (children (h ! p)). p < c \<and> c < length h \<and> parent (h ! c) = Some p)) \<and>
     path \<noteq> [] \<and> last path = 0 \<and> (\<forall>a \<in> set path. a < length h)"

section \<open>The inputs of the scenarios\<close>

definition newline :: jsstring where
  "newline = js [CHR 0x0A]"

text \<open>The four lines \<open>app\<close>, \<open>  src\<close>, \<open>    index.js\<close>, \<open>  package.json\<close>.\<close>

definition scenarioInput :: jsstring where
  "scenarioInput =
     join newline [js ''app'', js ''  src'', js ''    index.js'', js ''  package.json'']"

text \<open>The five lines of the expected diagram, in UTF-16 code units.\<close>

definition scenarioOutput :: jsstring where
  "scenarioOutput =
     join newline
       [js ''.'',
        [0x2514, 0x2500, 0x2500, 0x20] @ js ''app'',
        js ''    '' @ [0x251C, 0x2500, 0x2500, 0x20] @ js ''src'',
        js ''    '' @ [0x2502, 0x20, 0x20, 0x20] @ [0x2514, 0x2500, 0x2500, 0x20] @ js ''index.js'',
        js ''    '' @ [0x2514, 0x2500, 0x2500, 0x20] @ js ''package.json'']"

text \<open>A blank input: two spaces, a line feed, a tab.\<close>

definition blankInput :: jsstring where
  "blankInput = [0x20, 0x20, 0x0A, 0x09]"

text \<open>The store that \<open>parseInput\<close> builds from \<open>scenarioInput\<close>.\<close>

definition scenarioHeap :: heap where
  "scenarioHeap =
     [\<lparr>name = js ''.'', children = [1], indentCount = - 1, parent = None\<rparr>,
      \<lparr>name = js ''app'', children = [2, 4], indentCount = 0, parent = Some 0\<rparr>,
      \<lparr>name = js ''src'', children = [3], indentCount = 2, parent = Some 1\<rparr>,
      \<lparr>name = js ''index.js'', children = [], indentCount = 4, parent = Some 2\<rparr>,
      \<lparr>name = js ''package.json'', children = [], indentCount = 2, parent = Some 1\<rparr>]"

text \<open>
  The lines \<open>a\<close>, \<open>  b\<close> and a third line: \<open>      c\<close>, six columns deep, in \<open>jumpInput\<close>,
  and \<open>c\<close> in the first column in \<open>dedentInput\<close>. \<open>twoItems\<close> are the objects of the
  first two lines, and \<open>twoHeap\<close> with \<open>twoPath\<close> is the state of the loop after them.
\<close>

definition jumpInput :: jsstring where
  "jumpInput = join newline [js ''a'', js ''  b'', js ''      c'']"

definition dedentInput :: jsstring where
  "dedentInput = join newline [js ''a'', js ''  b'', js ''c'']"

definition item :: "jsstring \<Rightarrow> int \<Rightarrow> FileStructure" where
  "item nm ic = \<lparr>name = nm, children = [], indentCount = ic, parent = None\<rparr>"

definition twoItems :: "FileStructure list" where
  "twoItems = [item (js ''a'') 0, item (js ''b'') 2]"

definition twoHeap :: heap where
  "twoHeap =
     [\<lparr>name = js ''.'', children = [1], indentCount = - 1, parent = None\<rparr>,
      \<lparr>name = js ''a'', children = [2], indentCount = 0, parent = Some 0\<rparr>,
      \<lparr>name = js ''b'', children = [], indentCount = 2, parent = Some 1\<rparr>]"

definition twoPath :: "ref list" where
  "twoPath = [2, 1, 0]"

text \<open>
  Options that carry the ASCII character set and nothing else, the diagram of the scenario
  in that character set, and serializers that stand for the four parameters of the
  dispatcher.
\<close>

definition asciiOnly :: GenerateTreeOptions where
  "asciiOnly = emptyOptions\<lparr>charset := Val (js ''ascii'')\<rparr>"

text \<open>Options whose character set is falsy: the empty string, and \<open>undefined\<close>.\<close>

definition emptyCharset :: GenerateTreeOptions where
  "emptyCharset = emptyOptions\<lparr>charset := Val []\<rparr>"

definition undefinedCharset :: GenerateTreeOptions where
  "undefinedCharset = emptyOptions\<lparr>charset := Undefined\<rparr>"

definition scenarioAscii :: jsstring where
  "scenarioAscii =
     join newline
       [js ''.'', js ''`-- app'', js ''    |-- src'', js ''    |   `-- index.js'',
        js ''    `-- package.json'']"

definition noSerializers :: serializers where
  "noSerializers =
     \<lparr>formatArrayJson = (\<lambda>h s. None), formatYaml = (\<lambda>h s. None),
      formatXml = (\<lambda>h s. None), formatMarkdown = (\<lambda>h s. None)\<rparr>"

text \<open>
  The lines \<open>a\<close>, \<open>  .\<close>, \<open>    b\<close>: an item whose name is the dot, with an item below it,
  and the store that \<open>parseInput\<close> builds from them.
\<close>

definition dotInput :: jsstring where
  "dotInput = join newline [js ''a'', js ''  .'', js ''    b'']"

definition dotHeap :: heap where
  "dotHeap =
     [\<lparr>name = js ''.'', children = [1], indentCount = - 1, parent = None\<rparr>,
      \<lparr>name = js ''a'', children = [2], indentCount = 0, parent = Some 0\<rparr>,
      \<lparr>name = js ''.'', children = [3], indentCount = 2, parent = Some 1\<rparr>,
      \<lparr>name = js ''b'', children = [], indentCount = 4, parent = Some 2\<rparr>]"



text \<open>The lines \<open>a\<close>, \<open>  __proto__\<close>.\<close>

definition protoInput :: jsstring where
  "protoInput = join newline [js ''a'', js ''  __proto__'']"

text \<open>The connectors and the continuation of the UTF-8 character set.\<close>

definition tee :: jsstring where
  "tee = [0x251C, 0x2500, 0x2500, 0x20]"

definition corner :: jsstring where
  "corner = [0x2514, 0x2500, 0x2500, 0x20]"

definition pipe :: jsstring where
  "pipe = [0x2502, 0x20, 0x20, 0x20]"

section \<open>The tests of the repository\<close>

text \<open>
  What \<open>generate-tree.test.ts\<close>, \<open>parse-input.test.ts\<close> and the tests of the formatters
  expect of \<open>generateTree\<close>, \<open>splitInput\<close>, \<open>parseInput\<close>, \<open>formatTree\<close> and the
  serializers, evaluated on the definitions above.
\<close>

lemma test_ascii:
  "generateTree scenarioHeap (Some 0) (Some (emptyOptions\<lparr>charset := Val (js ''ascii'')\<rparr>))
     = Some (Inr (join newline
         [js ''.'', js ''`-- app'', js ''    |-- src'', js ''    |   `-- index.js'',
          js ''    `-- package.json'']))"
  by code_simp

lemma test_no_root_dot:
  "generateTree scenarioHeap (Some 0) (Some (emptyOptions\<lparr>rootDot := Val False\<rparr>))
     = Some (Inr (join newline
         [js ''app'', tee @ js ''src'', pipe @ corner @ js ''index.js'', corner @ js ''package.json'']))"
  by code_simp

lemma test_trailing_slash:
  "generateTree scenarioHeap (Some 0) (Some (emptyOptions\<lparr>trailingDirSlash := Val True\<rparr>))
     = Some (Inr (join newline
         [js ''.'', corner @ js ''app/'', js ''    '' @ tee @ js ''src/'',
          js ''    '' @ pipe @ corner @ js ''index.js'', js ''    '' @ corner @ js ''package.json'']))"
  by code_simp

lemma test_full_path:
  "generateTree scenarioHeap (Some 0) (Some (emptyOptions\<lparr>fullPath := Val True\<rparr>))
     = Some (Inr (join newline
         [js ''.'', corner @ js ''app'', js ''    '' @ tee @ js ''app/src'',
          js ''    '' @ pipe @ corner @ js ''app/src/index.js'',
          js ''    '' @ corner @ js ''app/package.json'']))"
  by code_simp

lemma test_unknown_charset:
  "generateTree scenarioHeap (Some 0) (Some (emptyOptions\<lparr>charset := Val (js ''invalid'')\<rparr>))
     = Some (Inl (UnknownCharset (js ''invalid''))) \<and>
   errorMessage (UnknownCharset (js ''invalid'')) = js ''Unknown charset: invalid''"
  by code_simp

lemma test_root_alone: "generateTree [rootNode] (Some 0) None = Some (Inr (js ''.''))"
  by code_simp

lemma test_combination:
  "generateTree scenarioHeap (Some 0)
     (Some (emptyOptions\<lparr>charset := Val (js ''ascii''), rootDot := Val False,
                           trailingDirSlash := Val True\<rparr>))
     = Some (Inr (join newline
         [js ''app/'', js ''|-- src/'', js ''|   `-- index.js'', js ''`-- package.json'']))"
  by code_simp

lemma test_null_structure:
  "generateTree h None options = Some (Inl StructureRequired) \<and>
   errorMessage StructureRequired = js ''Structure is required''"
  by (simp add: generateTree_def generateTreeLines_def)

lemma test_bullets:
  "splitInput (join newline [js ''- app'', js ''  - src'', js ''    - index.js''])
     = Inr [item (js ''app'') 0, item (js ''src'') 2, item (js ''index.js'') 4]"
  by code_simp

lemma test_empty_lines:
  "splitInput (join newline [js ''app'', js '''', js ''  src'', js ''    '', js ''    index.js''])
     = Inr [item (js ''app'') 0, item (js ''src'') 2, item (js ''index.js'') 4]"
  by code_simp

lemma test_split_empty: "splitInput [] = Inr []"
  by code_simp

lemma test_parse_basic: "parseInput scenarioInput = Inr (scenarioHeap, 0)"
  by code_simp

lemma test_multiple_roots:
  "(case parseInput (join newline [js ''app1'', js ''app2'', js ''app3'']) of
      Inl e \<Rightarrow> False
    | Inr (h, root) \<Rightarrow> map (\<lambda>c. name (h ! c)) (children (h ! root)) = [js ''app1'', js ''app2'', js ''app3''])"
  by code_simp

lemma test_format_null:
  "formatTree ser stringify h None (js ''utf-8'') options = Some (Inl StructureRequired)"
  by (simp add: formatTree_def)

lemma test_unknown_format:
  "formatTree ser stringify scenarioHeap (Some 0) (js ''unknown-format'') None
     = Some (Inr scenarioOutput)"
proof -
  have "js ''unknown-format'' \<notin> set recognizedFormats"
    by code_simp
  then have "formatTree ser stringify scenarioHeap (Some 0) (js ''unknown-format'') None
      = generateTree scenarioHeap (Some 0) (Some emptyOptions)"
    by (simp add: formatTree_def recognizedFormats_def)
  also have "\<dots> = Some (Inr scenarioOutput)"
    by code_simp
  finally show ?thesis .
qed

lemma test_options_passed:
  "formatTree ser stringify scenarioHeap (Some 0) (js ''ascii'')
       (Some (emptyOptions\<lparr>rootDot := Val False\<rparr>))
     = Some (Inr (join newline
         [js ''app'', js ''|-- src'', js ''|   `-- index.js'', js ''`-- package.json'']))"
proof -
  have "formatTree ser stringify scenarioHeap (Some 0) (js ''ascii'')
       (Some (emptyOptions\<lparr>rootDot := Val False\<rparr>))
      = generateTree scenarioHeap (Some 0)
          (Some (emptyOptions\<lparr>rootDot := Val False, charset := Val (js ''ascii'')\<rparr>))"
    by (simp add: formatTree_def)
  also have "\<dots> = Some (Inr (join newline
         [js ''app'', js ''|-- src'', js ''|   `-- index.js'', js ''`-- package.json'']))"
    by code_simp
  finally show ?thesis .
qed

lemma test_dot:
  "dotPaths scenarioHeap (Some 0)
     = Some (Inr [js ''app'', js ''app/package.json'', js ''app/src'', js ''app/src/index.js''])"
  by code_simp

lemma test_nested:
  "nestedRootObj scenarioHeap (Some 0)
     = Some (Inr (JObject
         [(js ''.'', JObject
            [(js ''app'', JObject
               [(js ''src'', JObject [(js ''index.js'', JNull)] ObjectPrototype),
                (js ''package.json'', JNull)] ObjectPrototype)] ObjectPrototype)]
         ObjectPrototype))"
  by code_simp

lemma test_nested_empty_dir:
  "(case parseInput (join newline [js ''app'', js ''  file.txt'', js ''  empty-dir'']) of
      Inl e \<Rightarrow> False
    | Inr (h, root) \<Rightarrow>
        nestedRootObj h (Some root)
          = Some (Inr (JObject
              [(js ''.'', JObject
                 [(js ''app'', JObject
                    [(js ''file.txt'', JNull),
                     (js ''empty-dir'', JObject [] ObjectPrototype)] ObjectPrototype)]
                 ObjectPrototype)]
              ObjectPrototype)))"
  by code_simp

lemma test_flat:
  "flatLists scenarioHeap (Some 0)
     = Some (Inr ([JObject [(js ''path'', JString (js ''app/src/index.js'')),
                            (js ''type'', JString (js ''file''))] ObjectPrototype,
                   JObject [(js ''path'', JString (js ''app/package.json'')),
                            (js ''type'', JString (js ''file''))] ObjectPrototype],
                  [JObject [(js ''path'', JString (js ''app''))] ObjectPrototype,
                   JObject [(js ''path'', JString (js ''app/src''))] ObjectPrototype]))"
  by code_simp

section \<open>Properties of the parser\<close>

lemma splitInput_blank:
  assumes "\<forall>l \<in> set (newlineSplitter input). onlyWhitespace l"
  shows "splitInput input = Inr []"
proof -
  have "filter (\<lambda>l. \<not> onlyWhitespace l) (newlineSplitter input) = []"
    using assms by (simp add: filter_empty_conv)
  then show ?thesis by (simp add: splitInput_def)
qed

lemma funpow_parentStep_None [simp]: "(parentStep h ^^ n) None = None"
  by (induction n) (simp_all add: parentStep_def)

lemma ancestor_0 [simp]: "ancestor h a 0 = Some a"
  by (simp add: ancestor_def)

lemma ancestor_Suc: "ancestor h a (Suc n) = (case parent (h ! a) of None \<Rightarrow> None | Some p \<Rightarrow> ancestor h p n)"
  by (simp add: ancestor_def funpow_swap1 parentStep_def split: option.splits)

lemma mapLines_items:
  "mapLines i ls = Inr ss \<Longrightarrow> s \<in> set ss \<Longrightarrow> 0 \<le> indentCount s \<and> children s = [] \<and> parent s = None"
  by (induction i ls arbitrary: ss rule: mapLines.induct)
     (auto simp: leadingWhitespaceAndBullet_def Let_def split: sum.splits)

lemma splitInput_items:
  "splitInput input = Inr ss \<Longrightarrow> s \<in> set ss \<Longrightarrow> 0 \<le> indentCount s \<and> children s = [] \<and> parent s = None"
  by (auto simp: splitInput_def Let_def split: if_splits dest: mapLines_items)

lemma popPath_suffix: "suffix (popPath h ic path) path"
  by (induction path) (auto simp: suffix_Cons)

lemma popPath_nonempty:
  "path \<noteq> [] \<Longrightarrow> indentCount (h ! last path) < ic \<Longrightarrow> popPath h ic path \<noteq> []"
  by (induction path) (auto split: if_splits)

lemma popPath_top:
  "popPath h ic path = par # rest \<Longrightarrow> indentCount (h ! par) < ic"
  by (induction path) (auto split: if_splits)

lemma parserInv_root:
  "parserInv h path \<Longrightarrow>
     h \<noteq> [] \<and> parent (h ! 0) = None \<and> indentCount (h ! 0) = - 1 \<and> name (h ! 0) = js ''.''"
  unfolding parserInv_def by blast

lemma parserInv_node:
  "parserInv h path \<Longrightarrow> a < length h \<Longrightarrow> 0 < a \<Longrightarrow>
     0 \<le> indentCount (h ! a) \<and> (\<exists>p<a. parent (h ! a) = Some p \<and> a \<in> set (children (h ! p)))"
  unfolding parserInv_def by blast

lemma parserInv_children:
  "parserInv h path \<Longrightarrow> p < length h \<Longrightarrow>
     sorted_wrt (<) (children (h ! p)) \<and>
     (\<forall>c \<in> set (children (h ! p)). p < c \<and> c < length h \<and> parent (h ! c) = Some p)"
  unfolding parserInv_def by blast

lemma parserInv_path:
  "parserInv h path \<Longrightarrow> path \<noteq> [] \<and> last path = 0 \<and> (\<forall>a \<in> set path. a < length h)"
  unfolding parserInv_def by blast

lemma attachStep_ok:
  assumes "parserInv h path" "0 \<le> indentCount s"
  shows "attachStep (h, path) s \<noteq> Inl TypeError \<and> attachStep (h, path) s \<noteq> Inl (EmptyPath n)"
proof -
  from assms(1) have ne: "path \<noteq> []" and l: "last path = 0"
    using parserInv_path by blast+
  from assms(1) have "indentCount (h ! 0) = - 1" using parserInv_root by blast
  with l assms(2) have "indentCount (h ! last path) < indentCount s" by simp
  with ne have pop: "popPath h (indentCount s) path \<noteq> []" by (rule popPath_nonempty)
  from ne obtain t ts where path: "path = t # ts" by (cases path) auto
  from pop obtain par rest where "popPath h (indentCount s) path = par # rest"
    by (cases "popPath h (indentCount s) path") auto
  then show ?thesis
    unfolding path by (simp add: Let_def)
qed

lemma attachStep_InrD:
  assumes "attachStep (h, path) s = Inr (h', path')"
  shows "\<exists>par rest. popPath h (indentCount s) path = par # rest \<and>
     h' = h[par := (h ! par)\<lparr>children := children (h ! par) @ [length h]\<rparr>] @ [s\<lparr>parent := Some par\<rparr>] \<and>
     path' = length h # par # rest"
proof (cases path)
  case Nil
  with assms show ?thesis by simp
next
  case (Cons t ts)
  show ?thesis
  proof (cases "popPath h (indentCount s) path")
    case Nil
    with assms Cons show ?thesis by (simp add: Let_def split: if_splits)
  next
    case (Cons par rest)
    with assms \<open>path = t # ts\<close> show ?thesis by (simp add: Let_def split: if_splits)
  qed
qed

lemma attachStep_inv:
  assumes inv: "parserInv h path" and s: "0 \<le> indentCount s" "children s = []"
    and step: "attachStep (h, path) s = Inr (h', path')"
  shows "parserInv h' path'"
proof -
  from attachStep_InrD [OF step] obtain par rest where pop: "popPath h (indentCount s) path = par # rest"
    and h': "h' = h[par := (h ! par)\<lparr>children := children (h ! par) @ [length h]\<rparr>] @ [s\<lparr>parent := Some par\<rparr>]"
    and path': "path' = length h # par # rest"
    by blast
  have suf: "suffix (par # rest) path" using popPath_suffix [of h "indentCount s" path] pop by simp
  then have sub: "set (par # rest) \<subseteq> set path" by (rule set_mono_suffix)
  from parserInv_path [OF inv] have pathlt: "\<forall>a \<in> set path. a < length h" and lastp: "last path = 0"
    by blast+
  from parserInv_root [OF inv] have ne: "h \<noteq> []" and root: "parent (h ! 0) = None"
    "indentCount (h ! 0) = - 1" "name (h ! 0) = js ''.''" by blast+
  from sub pathlt have par: "par < length h" by auto
  have len: "length h' = Suc (length h)" by (simp add: h')
  have nth_old: "h' ! a = (if a = par then (h ! a)\<lparr>children := children (h ! a) @ [length h]\<rparr> else h ! a)"
    if "a < length h" for a
    using that by (simp add: h' nth_append)
  have nth_new: "h' ! length h = s\<lparr>parent := Some par\<rparr>"
    by (simp add: h' nth_append)
  have last': "last path' = 0"
  proof -
    from suf obtain pre where "path = pre @ par # rest" by (auto simp: suffix_def)
    with lastp have "last (par # rest) = 0" by simp
    then show ?thesis by (simp add: path')
  qed
  have "0 < length h" using ne by simp
  then have c1: "h' \<noteq> [] \<and> parent (h' ! 0) = None \<and> indentCount (h' ! 0) = - 1 \<and> name (h' ! 0) = js ''.''"
    using root nth_old [of 0] len by (cases "par = 0") auto
  have c2: "0 \<le> indentCount (h' ! a) \<and> (\<exists>p<a. parent (h' ! a) = Some p \<and> a \<in> set (children (h' ! p)))"
    if "a < length h'" "0 < a" for a
  proof (cases "a = length h")
    case True
    have "parent (h' ! a) = Some par" "0 \<le> indentCount (h' ! a)" using True nth_new s by simp_all
    moreover have "a \<in> set (children (h' ! par))" using True nth_old [OF par] by simp
    ultimately show ?thesis using par True by blast
  next
    case False
    with that len have alt: "a < length h" by simp
    from parserInv_node [OF inv alt that(2)] obtain p where p: "p < a" "parent (h ! a) = Some p"
      "a \<in> set (children (h ! p))" and ind: "0 \<le> indentCount (h ! a)"
      by blast
    from p alt have plt: "p < length h" by simp
    have "parent (h' ! a) = Some p" "0 \<le> indentCount (h' ! a)"
      using nth_old [OF alt] p ind by (simp_all split: if_splits)
    moreover have "a \<in> set (children (h' ! p))"
      using nth_old [OF plt] p by (simp split: if_splits)
    ultimately show ?thesis using p(1) by blast
  qed
  have c3: "sorted_wrt (<) (children (h' ! p)) \<and>
        (\<forall>c \<in> set (children (h' ! p)). p < c \<and> c < length h' \<and> parent (h' ! c) = Some p)"
    if "p < length h'" for p
  proof (cases "p = length h")
    case True
    then have "children (h' ! p) = []" using s nth_new by simp
    then show ?thesis by simp
  next
    case False
    with that len have plt: "p < length h" by simp
    from parserInv_children [OF inv plt] have old: "sorted_wrt (<) (children (h ! p))"
      and oldc: "\<And>c. c \<in> set (children (h ! p)) \<Longrightarrow> p < c \<and> c < length h \<and> parent (h ! c) = Some p"
      by blast+
    have keep: "p < c \<and> c < length h' \<and> parent (h' ! c) = Some p" if "c \<in> set (children (h ! p))" for c
    proof -
      from oldc [OF that] have c: "p < c" "c < length h" "parent (h ! c) = Some p" by blast+
      then have "parent (h' ! c) = Some p" using nth_old [of c] by (simp split: if_splits)
      with c len show ?thesis by simp
    qed
    show ?thesis
    proof (cases "p = par")
      case True
      have ch: "children (h' ! p) = children (h ! p) @ [length h]"
        using nth_old [OF plt] True by simp
      have "sorted_wrt (<) (children (h ! p) @ [length h])"
        using old oldc by (auto simp: sorted_wrt_append)
      moreover have "p < length h \<and> length h < length h' \<and> parent (h' ! length h) = Some p"
        using plt len nth_new True by simp
      ultimately show ?thesis unfolding ch using keep by auto
    next
      case False
      have ch: "children (h' ! p) = children (h ! p)"
        using nth_old [OF plt] False by simp
      show ?thesis unfolding ch using old keep by blast
    qed
  qed
  have c4: "path' \<noteq> [] \<and> (\<forall>a \<in> set path'. a < length h')"
  proof -
    have "a < length h'" if "a \<in> set (par # rest)" for a
      using that sub pathlt len by (metis less_Suc_eq subsetD)
    then show ?thesis by (simp add: path' len)
  qed
  show ?thesis
    unfolding parserInv_def using c1 c2 c3 c4 last' by blast
qed

lemma parserInv_init: "parserInv [rootNode] [0]"
  by (simp add: parserInv_def rootNode_def)

lemma attachLoop_inv:
  assumes "parserInv h path" "\<forall>s \<in> set ss. 0 \<le> indentCount s \<and> children s = []"
    "attachLoop (h, path) ss = Inr (h', path')"
  shows "parserInv h' path'"
  using assms
proof (induction ss arbitrary: h path)
  case Nil
  then show ?case by simp
next
  case (Cons s ss)
  from Cons.prems(3) obtain h1 p1 where step: "attachStep (h, path) s = Inr (h1, p1)"
    and rest: "attachLoop (h1, p1) ss = Inr (h', path')"
    by (auto split: sum.splits)
  from Cons.prems step have "parserInv h1 p1" by (auto intro: attachStep_inv)
  with Cons.IH rest Cons.prems(2) show ?case by auto
qed

lemma attachLoop_append:
  "attachLoop st (pre @ post) =
     (case attachLoop st pre of Inl e \<Rightarrow> Inl e | Inr st' \<Rightarrow> attachLoop st' post)"
  by (induction pre arbitrary: st) (auto split: sum.splits)

lemma attachLoop_no_underflow:
  assumes "parserInv h path" "\<forall>s \<in> set ss. 0 \<le> indentCount s \<and> children s = []"
  shows "attachLoop (h, path) ss \<noteq> Inl TypeError \<and> attachLoop (h, path) ss \<noteq> Inl (EmptyPath n)"
  using assms
proof (induction ss arbitrary: h path)
  case Nil
  then show ?case by simp
next
  case (Cons s ss)
  from Cons.prems have s: "0 \<le> indentCount s" "children s = []" by simp_all
  show ?case
  proof (cases "attachStep (h, path) s")
    case (Inl e)
    with attachStep_ok [OF Cons.prems(1) s(1), of n] show ?thesis by auto
  next
    case (Inr st')
    obtain h1 p1 where st': "st' = (h1, p1)" by (cases st')
    from attachStep_inv [OF Cons.prems(1) s] Inr st' have "parserInv h1 p1" by simp
    with Cons.IH [of h1 p1] Cons.prems(2) Inr st' show ?thesis by simp
  qed
qed

lemma attachLoop_names:
  "attachLoop (h, path) ss = Inr (h', path') \<Longrightarrow>
     length h' = length h + length ss \<and>
     (\<forall>i<length ss. name (h' ! (length h + i)) = name (ss ! i) \<and>
                     indentCount (h' ! (length h + i)) = indentCount (ss ! i)) \<and>
     (\<forall>a<length h. name (h' ! a) = name (h ! a) \<and> indentCount (h' ! a) = indentCount (h ! a))"
proof (induction ss arbitrary: h path)
  case Nil
  then show ?case by simp
next
  case (Cons s ss)
  from Cons.prems obtain h1 p1 where step: "attachStep (h, path) s = Inr (h1, p1)"
    and rest: "attachLoop (h1, p1) ss = Inr (h', path')"
    by (auto split: sum.splits)
  from attachStep_InrD [OF step] obtain par rest' where
    h1: "h1 = h[par := (h ! par)\<lparr>children := children (h ! par) @ [length h]\<rparr>] @ [s\<lparr>parent := Some par\<rparr>]"
    by blast
  have len1: "length h1 = Suc (length h)" by (simp add: h1)
  have new: "name (h1 ! length h) = name s" "indentCount (h1 ! length h) = indentCount s"
    by (simp_all add: h1 nth_append)
  have old: "name (h1 ! a) = name (h ! a) \<and> indentCount (h1 ! a) = indentCount (h ! a)" if "a < length h" for a
    using that by (cases "a = par") (simp_all add: h1 nth_append)
  from Cons.IH [OF rest] have IH: "length h' = length h1 + length ss"
    "\<And>i. i < length ss \<Longrightarrow> name (h' ! (length h1 + i)) = name (ss ! i) \<and>
                     indentCount (h' ! (length h1 + i)) = indentCount (ss ! i)"
    "\<And>a. a < length h1 \<Longrightarrow> name (h' ! a) = name (h1 ! a) \<and> indentCount (h' ! a) = indentCount (h1 ! a)"
    by blast+
  have a: "length h' = length h + length (s # ss)" using IH(1) len1 by simp
  have b: "name (h' ! (length h + i)) = name ((s # ss) ! i) \<and>
           indentCount (h' ! (length h + i)) = indentCount ((s # ss) ! i)" if "i < length (s # ss)" for i
  proof (cases i)
    case 0
    then show ?thesis using IH(3) [of "length h"] len1 new by simp
  next
    case (Suc j)
    with that have "j < length ss" by simp
    from IH(2) [OF this] show ?thesis using Suc len1 by simp
  qed
  have c: "name (h' ! a) = name (h ! a) \<and> indentCount (h' ! a) = indentCount (h ! a)" if "a < length h" for a
    using IH(3) [of a] old [OF that] that len1 by simp
  from a b c show ?case by blast
qed

lemma attachLoop_jump:
  "attachLoop st ss = Inl (IndentJump n) \<Longrightarrow>
     \<exists>pre s post h path. ss = pre @ s # post \<and> attachLoop st pre = Inr (h, path) \<and> path \<noteq> [] \<and>
        indentCount (h ! hd path) + 2 < indentCount s \<and> indentCount (h ! hd path) \<noteq> - 1 \<and> n = name s"
proof (induction ss arbitrary: st)
  case Nil
  then show ?case by simp
next
  case (Cons s ss)
  obtain h path where st: "st = (h, path)" by (cases st)
  show ?case
  proof (cases "attachStep st s")
    case (Inl e)
    with Cons.prems have e: "attachStep (h, path) s = Inl (IndentJump n)" by (simp add: st)
    then have "path \<noteq> [] \<and> indentCount (h ! hd path) + 2 < indentCount s \<and>
        indentCount (h ! hd path) \<noteq> - 1 \<and> n = name s"
      by (cases path; cases "popPath h (indentCount s) path") (simp_all add: Let_def split: if_splits)
    then have "s # ss = [] @ s # ss \<and> attachLoop st [] = Inr (h, path) \<and> path \<noteq> [] \<and>
        indentCount (h ! hd path) + 2 < indentCount s \<and> indentCount (h ! hd path) \<noteq> - 1 \<and> n = name s"
      by (simp add: st)
    then show ?thesis by blast
  next
    case (Inr st')
    with Cons.prems have "attachLoop st' ss = Inl (IndentJump n)" by simp
    from Cons.IH [OF this] obtain pre s' post h' path' where
      *: "ss = pre @ s' # post" "attachLoop st' pre = Inr (h', path')" "path' \<noteq> []"
        "indentCount (h' ! hd path') + 2 < indentCount s'" "indentCount (h' ! hd path') \<noteq> - 1" "n = name s'"
      by blast
    have "s # ss = (s # pre) @ s' # post \<and> attachLoop st (s # pre) = Inr (h', path')"
      using * Inr by simp
    with * show ?thesis by blast
  qed
qed

lemma leadingWhitespaceAndBullet_total:
  "\<exists>g1 g2. leadingWhitespaceAndBullet line = Some (g1, g2)"
  by (simp add: leadingWhitespaceAndBullet_def Let_def)

lemma mapLines_total: "\<exists>ss. mapLines i ls = Inr ss"
proof (induction ls arbitrary: i)
  case Nil
  show ?case by simp
next
  case (Cons line ls)
  from leadingWhitespaceAndBullet_total obtain g1 g2 where
    "leadingWhitespaceAndBullet line = Some (g1, g2)" by blast
  moreover from Cons [of "i + 1"] obtain rest where "mapLines (i + 1) ls = Inr rest" by blast
  ultimately show ?case by simp
qed

lemma splitInput_total: "\<exists>ss. splitInput input = Inr ss"
  using mapLines_total by (simp add: splitInput_def Let_def)

lemma splitInput_Nil: "splitInput [] = Inr []"
  by (simp add: splitInput_def)

lemma ancestor_below:
  assumes "parserInv h path"
  shows "a < length h \<Longrightarrow> a < n \<Longrightarrow> ancestor h a n = None"
proof (induction n arbitrary: a)
  case 0
  then show ?case by simp
next
  case (Suc n)
  show ?case
  proof (cases "a = 0")
    case True
    with parserInv_root [OF assms] show ?thesis by (simp add: ancestor_Suc)
  next
    case False
    with parserInv_node [OF assms Suc.prems(1)] obtain p where p: "p < a" "parent (h ! a) = Some p"
      by auto
    with Suc.prems have "p < length h" "p < n" by simp_all
    from Suc.IH [OF this] p show ?thesis by (simp add: ancestor_Suc)
  qed
qed

lemma parserInv_wellFormed:
  assumes inv: "parserInv h path"
  shows "wellFormed h 0"
proof -
  from parserInv_root [OF inv] have r: "0 < length h" "parent (h ! 0) = None" by simp_all
  have n: "case parent (h ! a) of None \<Rightarrow> False | Some p \<Rightarrow> p < length h \<and> a \<in> set (children (h ! p))"
    if "a < length h" "a \<noteq> 0" for a
  proof -
    from parserInv_node [OF inv that(1)] that(2) obtain p where
      "p < a" "parent (h ! a) = Some p" "a \<in> set (children (h ! p))" by auto
    with that(1) show ?thesis by simp
  qed
  have c: "distinct (children (h ! p)) \<and>
        (\<forall>c \<in> set (children (h ! p)). c < length h \<and> parent (h ! c) = Some p)" if "p < length h" for p
    using parserInv_children [OF inv that] by (auto simp: strict_sorted_iff)
  have a: "ancestor h a (length h) = None" if "a < length h" for a
    using ancestor_below [OF inv that that] .
  show ?thesis
    unfolding wellFormed_def using r n c a by simp
qed

lemma distinct_count_list: "distinct xs \<Longrightarrow> x \<in> set xs \<Longrightarrow> count_list xs x = 1"
  by (induction xs) auto

lemma parse_state:
  assumes "splitInput input = Inr (pre @ post)" "attachLoop ([rootNode], [0]) pre = Inr (h, path)"
  shows "parserInv h path"
proof -
  have "\<forall>s \<in> set pre. 0 \<le> indentCount s \<and> children s = []"
    using splitInput_items [OF assms(1)] by simp
  from attachLoop_inv [OF parserInv_init this assms(2)] show ?thesis .
qed

text \<open>
  C8: the empty string is rejected with the input-required error; a non-empty input in
  which every line is made of whitespace only is parsed, and the result is the root alone,
  with no children.
\<close>

theorem C8_empty_rejected_blank_accepted:
  "parseInput [] = Inl InputRequired \<and>
   errorMessage InputRequired = js ''Input must be a non-empty string'' \<and>
   (input \<noteq> [] \<and> (\<forall>l \<in> set (newlineSplitter input). onlyWhitespace l) \<longrightarrow>
      parseInput input = Inr ([rootNode], 0) \<and> children ([rootNode] ! 0) = [])"
proof -
  have "parseInput [] = Inl InputRequired"
    by (simp add: parseInput_def)
  moreover have "parseInput input = Inr ([rootNode], 0)"
    if "input \<noteq> []" and "\<forall>l \<in> set (newlineSplitter input). onlyWhitespace l"
    using that by (simp add: parseInput_def splitInput_blank)
  moreover have "children ([rootNode] ! 0) = []"
    by (simp add: rootNode_def)
  ultimately show ?thesis by simp
qed

theorem C8_blank_witness:
  "blankInput \<noteq> [] \<and> list_all onlyWhitespace (newlineSplitter blankInput) \<and>
   parseInput blankInput = Inr ([rootNode], 0)"
proof -
  have lines: "newlineSplitter blankInput = [[0x20, 0x20], [0x09]]"
    by (simp add: blankInput_def isNewline_def)
  have blank: "blankInput \<noteq> [] \<and> list_all onlyWhitespace (newlineSplitter blankInput)"
    unfolding lines by (simp add: blankInput_def onlyWhitespace_def isSpace_def)
  with C8_empty_rejected_blank_accepted [of blankInput] show ?thesis
    by (simp add: list_all_iff)
qed

lemma mapLines_indents:
  "mapLines i ls = Inr ss \<Longrightarrow>
     map indentCount ss = map (\<lambda>l. int (length (takeWhile isSpace l))) ls"
proof (induction ls arbitrary: i ss)
  case Nil
  then show ?case by simp
next
  case (Cons line ls)
  from mapLines_total [of "i + 1" ls] obtain rest where rest: "mapLines (i + 1) ls = Inr rest" by blast
  from Cons.IH [OF rest] Cons.prems rest show ?case
    by (auto simp: leadingWhitespaceAndBullet_def Let_def)
qed

lemma splitInput_indents:
  "splitInput input = Inr ss \<Longrightarrow>
     map indentCount ss
       = map (\<lambda>l. int (length (takeWhile isSpace l)))
           (filter (\<lambda>l. \<not> onlyWhitespace l) (newlineSplitter input))"
proof (cases "filter (\<lambda>l. \<not> onlyWhitespace l) (newlineSplitter input) = []")
  case True
  assume "splitInput input = Inr ss"
  with True show ?thesis by (simp add: splitInput_def)
next
  case False
  assume "splitInput input = Inr ss"
  with False have "mapLines 0 (filter (\<lambda>l. \<not> onlyWhitespace l) (newlineSplitter input)) = Inr ss"
    by (simp add: splitInput_def Let_def)
  from mapLines_indents [OF this] show ?thesis .
qed

text \<open>
  C9: the ancestor stack never becomes empty. The indent of every item is the length of
  the leading whitespace of its line, so at least 0, and the root has the indent -1; in every state that the attachment loop reaches, the stack
  is not empty, the pop loop leaves it non-empty for the next item, with the root (whose
  indent is -1) still at its bottom; so \<open>parseInput\<close> never throws from the branch that
  an empty stack guards, nor from reading the top of an empty stack.
\<close>

theorem C9_stack_never_empty:
  "(\<forall>ss. splitInput input = Inr ss \<longrightarrow>
      map indentCount ss
        = map (\<lambda>l. int (length (takeWhile isSpace l)))
            (filter (\<lambda>l. \<not> onlyWhitespace l) (newlineSplitter input)) \<and>
      (\<forall>s \<in> set ss. 0 \<le> indentCount s)) \<and>
   indentCount rootNode = - 1 \<and>
   (\<forall>pre s post h path.
      splitInput input = Inr (pre @ s # post) \<and> attachLoop ([rootNode], [0]) pre = Inr (h, path) \<longrightarrow>
      path \<noteq> [] \<and> popPath h (indentCount s) path \<noteq> [] \<and>
      last (popPath h (indentCount s) path) = 0 \<and> indentCount (h ! 0) = - 1) \<and>
   (\<forall>n. parseInput input \<noteq> Inl (EmptyPath n)) \<and>
   parseInput input \<noteq> Inl TypeError"
proof -
  have a: "map indentCount ss
        = map (\<lambda>l. int (length (takeWhile isSpace l)))
            (filter (\<lambda>l. \<not> onlyWhitespace l) (newlineSplitter input)) \<and>
      (\<forall>s \<in> set ss. 0 \<le> indentCount s)" if "splitInput input = Inr ss" for ss
    using splitInput_items [OF that] splitInput_indents [OF that] by blast
  have b: "indentCount rootNode = - 1" by (simp add: rootNode_def)
  have c: "path \<noteq> [] \<and> popPath h (indentCount s) path \<noteq> [] \<and>
      last (popPath h (indentCount s) path) = 0 \<and> indentCount (h ! 0) = - 1"
    if sp: "splitInput input = Inr (pre @ s # post)"
      and st: "attachLoop ([rootNode], [0]) pre = Inr (h, path)" for pre s post h path
  proof -
    from parse_state [OF sp st] have inv: "parserInv h path" .
    from parserInv_path [OF inv] have ne: "path \<noteq> []" and l: "last path = 0" by blast+
    from parserInv_root [OF inv] have r: "indentCount (h ! 0) = - 1" by blast
    from splitInput_items [OF sp, of s] have "0 \<le> indentCount s" by simp
    with r l have "indentCount (h ! last path) < indentCount s" by simp
    with ne have pop: "popPath h (indentCount s) path \<noteq> []" by (rule popPath_nonempty)
    from popPath_suffix [of h "indentCount s" path] obtain dropped where
      "path = dropped @ popPath h (indentCount s) path" by (auto simp: suffix_def)
    with pop l have "last (popPath h (indentCount s) path) = 0" by (metis last_appendR)
    with ne pop r show ?thesis by simp
  qed
  have d: "parseInput input \<noteq> Inl TypeError \<and> parseInput input \<noteq> Inl (EmptyPath n)" for n
  proof (cases "input = []")
    case True
    then show ?thesis by (simp add: parseInput_def)
  next
    case False
    from splitInput_total obtain ss where ss: "splitInput input = Inr ss" by blast
    have items: "\<forall>s \<in> set ss. 0 \<le> indentCount s \<and> children s = []"
      using splitInput_items [OF ss] by blast
    from attachLoop_no_underflow [OF parserInv_init items, of n]
    show ?thesis using False ss by (auto simp: parseInput_def split: sum.splits)
  qed
  from a b c d show ?thesis by blast
qed

theorem C9_dedent_witness:
  "splitInput dedentInput = Inr (twoItems @ item (js ''c'') 0 # []) \<and>
   attachLoop ([rootNode], [0]) twoItems = Inr (twoHeap, twoPath) \<and>
   popPath twoHeap (indentCount (item (js ''c'') 0)) twoPath = [0] \<and>
   0 \<le> indentCount (item (js ''c'') 0) \<and>
   parseInput dedentInput \<noteq> Inl (EmptyPath (js ''c'')) \<and>
   parseInput dedentInput \<noteq> Inl TypeError"
proof -
  have split: "splitInput dedentInput = Inr (twoItems @ item (js ''c'') 0 # [])"
    by code_simp
  have loop: "attachLoop ([rootNode], [0]) twoItems = Inr (twoHeap, twoPath)"
    by code_simp
  have pop: "popPath twoHeap (indentCount (item (js ''c'') 0)) twoPath = [0]"
    by code_simp
  from C9_stack_never_empty [of dedentInput] split loop
  have "0 \<le> indentCount (item (js ''c'') 0) \<and>
    popPath twoHeap (indentCount (item (js ''c'') 0)) twoPath \<noteq> [] \<and>
    parseInput dedentInput \<noteq> Inl (EmptyPath (js ''c'')) \<and>
    parseInput dedentInput \<noteq> Inl TypeError"
    by auto
  with split loop pop show ?thesis by simp
qed

text \<open>
  C2: when the attachment loop reaches an item \<open>s\<close> in the state \<open>(h, path)\<close>, the top of
  the stack is the root exactly when its indent is -1; if the indent of \<open>s\<close> exceeds the
  indent of the top by more than 2 and the top is not the root sentinel, \<open>parseInput\<close>
  fails with the bad-indentation error that names \<open>s\<close>; if not, the iteration for \<open>s\<close>
  raises nothing. And whenever \<open>parseInput\<close> fails by the jump rule, some item that the
  loop reached triggered it, and the error names that item.
\<close>

theorem C2_indent_jump:
  assumes "splitInput input = Inr (pre @ s # post)"
    and "attachLoop ([rootNode], [0]) pre = Inr (h, path)"
  shows "path \<noteq> [] \<and>
    (indentCount (h ! hd path) = - 1) = (hd path = 0) \<and>
    (indentCount (h ! hd path) + 2 < indentCount s \<and> indentCount (h ! hd path) \<noteq> - 1 \<longrightarrow>
       parseInput input = Inl (IndentJump (name s)) \<and>
       errorMessage (IndentJump (name s)) = js ''Bad indentation found at item: '' @ name s) \<and>
    (\<not> (indentCount (h ! hd path) + 2 < indentCount s \<and> indentCount (h ! hd path) \<noteq> - 1) \<longrightarrow>
       (\<exists>st. attachStep (h, path) s = Inr st)) \<and>
    (\<forall>n. parseInput input = Inl (IndentJump n) \<longrightarrow>
       (\<exists>pre' s' post' h' path'. splitInput input = Inr (pre' @ s' # post') \<and>
          attachLoop ([rootNode], [0]) pre' = Inr (h', path') \<and> path' \<noteq> [] \<and>
          indentCount (h' ! hd path') + 2 < indentCount s' \<and>
          indentCount (h' ! hd path') \<noteq> - 1 \<and> n = name s'))"
proof -
  from parse_state [OF assms] have inv: "parserInv h path" .
  from parserInv_path [OF inv] have ne: "path \<noteq> []" and lt: "hd path < length h" by auto
  from ne obtain t ts where path: "path = t # ts" by (cases path) auto
  from parserInv_root [OF inv] have r: "indentCount (h ! 0) = - 1" by blast
  have top: "(indentCount (h ! hd path) = - 1) = (hd path = 0)"
  proof (cases "hd path = 0")
    case True
    with r show ?thesis by simp
  next
    case False
    with parserInv_node [OF inv lt] have "0 \<le> indentCount (h ! hd path)" by simp
    with False show ?thesis by simp
  qed
  have nonempty: "input \<noteq> []"
    using assms(1) splitInput_Nil by auto
  have jump: "parseInput input = Inl (IndentJump (name s))"
    if "indentCount (h ! hd path) + 2 < indentCount s \<and> indentCount (h ! hd path) \<noteq> - 1"
  proof -
    have "attachStep (h, path) s = Inl (IndentJump (name s))"
      using that by (simp add: path Let_def)
    then have "attachLoop ([rootNode], [0]) (pre @ s # post) = Inl (IndentJump (name s))"
      using assms(2) by (simp add: attachLoop_append)
    with assms(1) nonempty show ?thesis by (simp add: parseInput_def)
  qed
  have nojump: "\<exists>st. attachStep (h, path) s = Inr st"
    if "\<not> (indentCount (h ! hd path) + 2 < indentCount s \<and> indentCount (h ! hd path) \<noteq> - 1)"
  proof -
    from splitInput_items [OF assms(1), of s] have s: "0 \<le> indentCount s" by simp
    from attachStep_ok [OF inv s] have ok: "attachStep (h, path) s \<noteq> Inl TypeError"
      "\<And>n. attachStep (h, path) s \<noteq> Inl (EmptyPath n)" by blast+
    show ?thesis
    proof (cases "popPath h (indentCount s) path")
      case Nil
      with ok(2) [of "name s"] that show ?thesis by (auto simp: path Let_def)
    next
      case (Cons par rest)
      with that show ?thesis by (auto simp: path Let_def)
    qed
  qed
  have only: "\<exists>pre' s' post' h' path'. splitInput input = Inr (pre' @ s' # post') \<and>
          attachLoop ([rootNode], [0]) pre' = Inr (h', path') \<and> path' \<noteq> [] \<and>
          indentCount (h' ! hd path') + 2 < indentCount s' \<and>
          indentCount (h' ! hd path') \<noteq> - 1 \<and> n = name s'"
    if "parseInput input = Inl (IndentJump n)" for n
  proof -
    from that assms(1) nonempty
    have "attachLoop ([rootNode], [0]) (pre @ s # post) = Inl (IndentJump n)"
      by (simp add: parseInput_def split: sum.splits prod.splits)
    from attachLoop_jump [OF this] assms(1) show ?thesis by metis
  qed
  have msg: "errorMessage (IndentJump (name s)) = js ''Bad indentation found at item: '' @ name s"
    by simp
  from ne top jump nojump only msg show ?thesis by blast
qed

theorem C2_jump_witness:
  "splitInput jumpInput = Inr (twoItems @ item (js ''c'') 6 # []) \<and>
   attachLoop ([rootNode], [0]) twoItems = Inr (twoHeap, twoPath) \<and>
   indentCount (twoHeap ! hd twoPath) + 2 < indentCount (item (js ''c'') 6) \<and>
   indentCount (twoHeap ! hd twoPath) \<noteq> - 1 \<and>
   parseInput jumpInput = Inl (IndentJump (js ''c'')) \<and>
   errorMessage (IndentJump (js ''c'')) = js ''Bad indentation found at item: c''"
proof -
  have split: "splitInput jumpInput = Inr (twoItems @ item (js ''c'') 6 # [])"
    by code_simp
  have loop: "attachLoop ([rootNode], [0]) twoItems = Inr (twoHeap, twoPath)"
    by code_simp
  have cond: "indentCount (twoHeap ! hd twoPath) + 2 < indentCount (item (js ''c'') 6) \<and>
    indentCount (twoHeap ! hd twoPath) \<noteq> - 1"
    by code_simp
  have nm: "name (item (js ''c'') 6) = js ''c''"
    by (simp add: item_def)
  from C2_indent_jump [OF split loop] cond
  have "parseInput jumpInput = Inl (IndentJump (name (item (js ''c'') 6)))"
    by blast
  moreover have "errorMessage (IndentJump (js ''c'')) = js ''Bad indentation found at item: c''"
    by (simp add: js_def)
  ultimately show ?thesis using split loop cond nm by simp
qed

text \<open>
  C4: the tree of a successful \<open>parseInput\<close> satisfies the invariants of the model. The
  root has the sentinel indent and no parent, and it is the only node without a parent;
  every other node has a parent that lists it exactly once, and no other node lists it;
  the children of every node are listed by increasing reference, and the references
  follow the order of the input (the node at reference \<open>i + 1\<close> is the \<open>i\<close>-th item); the
  store is a well-formed tree.
\<close>

theorem C4_model_invariants:
  assumes "parseInput input = Inr (h, root)"
  shows "root < length h \<and> indentCount (h ! root) = - 1 \<and> parent (h ! root) = None \<and>
    (\<forall>a<length h. (parent (h ! a) = None) = (a = root)) \<and>
    (\<forall>a<length h. a \<noteq> root \<longrightarrow>
       (\<exists>p<length h. parent (h ! a) = Some p \<and> count_list (children (h ! p)) a = 1 \<and>
          (\<forall>q<length h. q \<noteq> p \<longrightarrow> a \<notin> set (children (h ! q))))) \<and>
    (\<forall>p<length h. sorted_wrt (<) (children (h ! p))) \<and>
    (\<exists>ss. splitInput input = Inr ss \<and> length h = Suc (length ss) \<and>
       (\<forall>i<length ss. name (h ! Suc i) = name (ss ! i) \<and>
                       indentCount (h ! Suc i) = indentCount (ss ! i))) \<and>
    wellFormed h root"
proof -
  from assms obtain ss path where ss: "splitInput input = Inr ss"
    and loop: "attachLoop ([rootNode], [0]) ss = Inr (h, path)" and root: "root = 0"
    by (auto simp: parseInput_def split: if_splits sum.splits)
  from parse_state [of input ss "[]"] ss loop have inv: "parserInv h path" by simp
  from parserInv_root [OF inv] have r: "0 < length h" "indentCount (h ! 0) = - 1" "parent (h ! 0) = None"
    by simp_all
  have one: "(parent (h ! a) = None) = (a = 0)" if "a < length h" for a
    using parserInv_node [OF inv that] r by (cases "a = 0") auto
  have child: "\<exists>p<length h. parent (h ! a) = Some p \<and> count_list (children (h ! p)) a = 1 \<and>
          (\<forall>q<length h. q \<noteq> p \<longrightarrow> a \<notin> set (children (h ! q)))"
    if "a < length h" "a \<noteq> 0" for a
  proof -
    from parserInv_node [OF inv that(1)] that(2) obtain p where
      p: "p < a" "parent (h ! a) = Some p" "a \<in> set (children (h ! p))" by auto
    with that have plt: "p < length h" by simp
    from parserInv_children [OF inv plt] have "distinct (children (h ! p))"
      by (simp add: strict_sorted_iff)
    with p have cnt: "count_list (children (h ! p)) a = 1" by (simp add: distinct_count_list)
    have "a \<notin> set (children (h ! q))" if q: "q < length h" "q \<noteq> p" for q
    proof
      assume "a \<in> set (children (h ! q))"
      with parserInv_children [OF inv q(1)] have "parent (h ! a) = Some q" by blast
      with p q show False by simp
    qed
    with plt p cnt show ?thesis by blast
  qed
  have ord: "sorted_wrt (<) (children (h ! p))" if "p < length h" for p
    using parserInv_children [OF inv that] by blast
  from attachLoop_names [OF loop] have len: "length h = Suc (length ss)"
    and nm: "\<And>i. i < length ss \<Longrightarrow> name (h ! Suc i) = name (ss ! i) \<and>
                       indentCount (h ! Suc i) = indentCount (ss ! i)"
    by (simp_all add: rootNode_def)
  from parserInv_wellFormed [OF inv] have wf: "wellFormed h 0" .
  from r one child ord ss len nm wf show ?thesis unfolding root by blast
qed

theorem C4_scenario_witness:
  "parseInput scenarioInput = Inr (scenarioHeap, 0) \<and> wellFormed scenarioHeap 0 \<and>
   parent (scenarioHeap ! 0) = None \<and> indentCount (scenarioHeap ! 0) = - 1 \<and>
   sorted_wrt (<) (children (scenarioHeap ! 1))"
proof -
  have parsed: "parseInput scenarioInput = Inr (scenarioHeap, 0)"
    by code_simp
  have "(1::nat) < length scenarioHeap"
    by (simp add: scenarioHeap_def)
  with C4_model_invariants [OF parsed] parsed show ?thesis by blast
qed

section \<open>Properties of well-formed trees\<close>

lemma wf_root: "wellFormed h r \<Longrightarrow> r < length h \<and> parent (h ! r) = None"
  unfolding wellFormed_def by blast

lemma wf_parent:
  "wellFormed h r \<Longrightarrow> a < length h \<Longrightarrow> a \<noteq> r \<Longrightarrow>
     \<exists>p<length h. parent (h ! a) = Some p \<and> a \<in> set (children (h ! p))"
proof -
  assume wf: "wellFormed h r" and a: "a < length h" "a \<noteq> r"
  from a(1) have "a \<in> set [0..<length h]" by simp
  with wf a(2) have "case parent (h ! a) of None \<Rightarrow> False
      | Some p \<Rightarrow> p < length h \<and> a \<in> set (children (h ! p))"
    unfolding wellFormed_def by blast
  then show ?thesis by (cases "parent (h ! a)") auto
qed

lemma wf_children:
  "wellFormed h r \<Longrightarrow> p < length h \<Longrightarrow>
     distinct (children (h ! p)) \<and>
     (\<forall>c \<in> set (children (h ! p)). c < length h \<and> parent (h ! c) = Some p)"
proof -
  assume wf: "wellFormed h r" and p: "p < length h"
  from p have "p \<in> set [0..<length h]" by simp
  with wf show ?thesis unfolding wellFormed_def by blast
qed

lemma wf_acyclic: "wellFormed h r \<Longrightarrow> a < length h \<Longrightarrow> ancestor h a (length h) = None"
proof -
  assume wf: "wellFormed h r" and a: "a < length h"
  from a have "a \<in> set [0..<length h]" by simp
  with wf show ?thesis unfolding wellFormed_def by blast
qed

lemma ancestor_Suc_last: "ancestor h a (Suc n) = parentStep h (ancestor h a n)"
  by (simp add: ancestor_def)

lemma ancestor_None_mono: "ancestor h a n = None \<Longrightarrow> n \<le> m \<Longrightarrow> ancestor h a m = None"
proof (induction m)
  case 0
  then show ?case by simp
next
  case (Suc m)
  show ?case
  proof (cases "n = Suc m")
    case True
    with Suc.prems show ?thesis by simp
  next
    case False
    with Suc have "ancestor h a m = None" by simp
    then show ?thesis by (simp add: ancestor_Suc_last parentStep_def)
  qed
qed

lemma wf_only_root:
  assumes "wellFormed h r" "a < length h"
  shows "(parent (h ! a) = None) = (a = r)"
proof (cases "a = r")
  case True
  with wf_root [OF assms(1)] show ?thesis by simp
next
  case False
  from wf_parent [OF assms False] obtain p where "parent (h ! a) = Some p" by blast
  with False show ?thesis by simp
qed

lemma reach_root:
  assumes wf: "wellFormed h r"
  shows "a < length h \<Longrightarrow> ancestor h a n = None \<Longrightarrow> \<exists>k<n. ancestor h a k = Some r"
proof (induction n arbitrary: a)
  case 0
  then show ?case by simp
next
  case (Suc n)
  show ?case
  proof (cases "a = r")
    case True
    then have "ancestor h a 0 = Some r" by simp
    then show ?thesis by blast
  next
    case False
    from wf_parent [OF wf Suc.prems(1) False] obtain p where p: "p < length h" "parent (h ! a) = Some p"
      by blast
    with Suc.prems(2) have "ancestor h p n = None" by (simp add: ancestor_Suc)
    from Suc.IH [OF p(1) this] obtain k where "k < n" "ancestor h p k = Some r" by blast
    with p have "Suc k < Suc n" "ancestor h a (Suc k) = Some r" by (simp_all add: ancestor_Suc)
    then show ?thesis by blast
  qed
qed

lemma wf_depth:
  assumes "wellFormed h r" "a < length h"
  shows "\<exists>k<length h. ancestor h a k = Some r"
  using reach_root [OF assms(1) assms(2) wf_acyclic [OF assms]] .

lemma depth_bound:
  assumes "wellFormed h r" "a < length h" "ancestor h a k = Some r"
  shows "k < length h"
proof (rule ccontr)
  assume "\<not> k < length h"
  then have "length h \<le> k" by simp
  from ancestor_None_mono [OF wf_acyclic [OF assms(1,2)] this] assms(3) show False by simp
qed

lemma ex_forest:
  "(\<And>c. c \<in> set cs \<Longrightarrow> \<exists>t. rootOf t = c \<and> P t) \<Longrightarrow>
     \<exists>ts. map rootOf ts = cs \<and> (\<forall>t \<in> set ts. P t)"
proof (induction cs)
  case Nil
  then show ?case by simp
next
  case (Cons c cs)
  from Cons.prems [of c] obtain t where t: "rootOf t = c" "P t" by auto
  from Cons.IH Cons.prems obtain ts where ts: "map rootOf ts = cs" "\<forall>t \<in> set ts. P t" by auto
  from t ts have "map rootOf (t # ts) = c # cs \<and> (\<forall>u \<in> set (t # ts). P u)" by simp
  then show ?case by (rule exI)
qed

lemma tree_exists_aux:
  assumes wf: "wellFormed h r"
  shows "a < length h \<Longrightarrow> ancestor h a k = Some r \<Longrightarrow> m = length h - k \<Longrightarrow>
     \<exists>t. rootOf t = a \<and> shape h t"
proof (induction m arbitrary: a k rule: less_induct)
  case (less m)
  from depth_bound [OF wf less.prems(1,2)] have k: "k < length h" .
  have "\<exists>t. rootOf t = c \<and> shape h t" if c: "c \<in> set (children (h ! a))" for c
  proof -
    from wf_children [OF wf less.prems(1)] c have clt: "c < length h" and par: "parent (h ! c) = Some a"
      by blast+
    from par less.prems(2) have anc: "ancestor h c (Suc k) = Some r" by (simp add: ancestor_Suc)
    have "length h - Suc k < m" using k less.prems(3) by simp
    from less.IH [OF this clt anc refl] show ?thesis .
  qed
  from ex_forest [of "children (h ! a)" "shape h", OF this] obtain ts where
    "map rootOf ts = children (h ! a)" "\<forall>t \<in> set ts. shape h t" by blast
  with less.prems(1) have "rootOf (Node a ts) = a \<and> shape h (Node a ts)" by simp
  then show ?case by blast
qed

lemma tree_exists:
  assumes "wellFormed h r" "a < length h"
  shows "\<exists>t. rootOf t = a \<and> shape h t"
proof -
  from wf_depth [OF assms] obtain k where "ancestor h a k = Some r" by blast
  from tree_exists_aux [OF assms(1,2) this refl] show ?thesis .
qed

lemma shape_root_lt: "shape h t \<Longrightarrow> rootOf t < length h"
  by (cases t) simp

lemma shape_preorder_lt: "shape h t \<Longrightarrow> a \<in> set (preorder t) \<Longrightarrow> a < length h"
  by (induction t) auto

lemma count_sum_list: "count (sum_list ms) a = sum_list (map (\<lambda>m. count m a) ms)"
  by (induction ms) simp_all

lemma sum_list_add_mset:
  "(\<Sum>t\<leftarrow>ts. add_mset (f t) (g t)) = mset (map f ts) + (\<Sum>t\<leftarrow>ts. g t)"
  by (induction ts) simp_all

lemma sum_list_concat_map:
  "(\<Sum>t\<leftarrow>ts. \<Sum>p\<leftarrow>F t. (G p :: 'a multiset)) = (\<Sum>p\<leftarrow>concat (map F ts). G p)"
  by (induction ts) simp_all

lemma mset_concat_map: "mset (concat (map F ts)) = (\<Sum>t\<leftarrow>ts. mset (F t))"
  by (induction ts) simp_all

lemma preorder_mset:
  "shape h t \<Longrightarrow>
     mset (preorder t) = add_mset (rootOf t) (\<Sum>p\<leftarrow>preorder t. mset (children (h ! p)))"
proof (induction t)
  case (Node a ts)
  have IH: "mset (preorder t) = add_mset (rootOf t) (\<Sum>p\<leftarrow>preorder t. mset (children (h ! p)))"
    if "t \<in> set ts" for t
    using Node that by simp
  have ch: "children (h ! a) = map rootOf ts" using Node.prems by simp
  have "(\<Sum>t\<leftarrow>ts. mset (preorder t))
      = (\<Sum>t\<leftarrow>ts. add_mset (rootOf t) (\<Sum>p\<leftarrow>preorder t. mset (children (h ! p))))"
    using IH by (auto intro: arg_cong [where f = sum_list])
  also have "\<dots> = mset (map rootOf ts) + (\<Sum>t\<leftarrow>ts. \<Sum>p\<leftarrow>preorder t. mset (children (h ! p)))"
    by (rule sum_list_add_mset)
  also have "\<dots> = mset (children (h ! a)) + (\<Sum>p\<leftarrow>concat (map preorder ts). mset (children (h ! p)))"
    by (simp only: ch sum_list_concat_map)
  finally have "mset (concat (map preorder ts))
      = mset (children (h ! a)) + (\<Sum>p\<leftarrow>concat (map preorder ts). mset (children (h ! p)))"
    by (simp only: mset_concat_map)
  then show ?case by simp
qed

lemma children_count:
  assumes wf: "wellFormed h r" and p: "p < length h"
  shows "count_list (children (h ! p)) a = (if a < length h \<and> parent (h ! a) = Some p then 1 else 0)"
proof (cases "a \<in> set (children (h ! p))")
  case True
  with wf_children [OF wf p] have "distinct (children (h ! p))" "a < length h" "parent (h ! a) = Some p"
    by blast+
  with True show ?thesis by (simp add: distinct_count_list)
next
  case False
  have "\<not> (a < length h \<and> parent (h ! a) = Some p)"
  proof
    assume a: "a < length h \<and> parent (h ! a) = Some p"
    with wf_root [OF wf] have "a \<noteq> r" by auto
    from wf_parent [OF wf _ this] a obtain q where "parent (h ! a) = Some q" "a \<in> set (children (h ! q))"
      by blast
    with a False show False by simp
  qed
  with False show ?thesis by (simp add: count_list_0_iff)
qed

lemma sum_list_indicator: "(\<Sum>p\<leftarrow>xs. if q = p then 1 else 0) = count_list xs q"
  by (induction xs) auto

lemma preorder_count:
  assumes wf: "wellFormed h r" and sh: "shape h t"
  shows "count_list (preorder t) a =
     (if rootOf t = a then 1 else 0) +
     (if a < length h then (case parent (h ! a) of None \<Rightarrow> 0 | Some q \<Rightarrow> count_list (preorder t) q)
      else 0)"
proof -
  have "count_list (preorder t) a = count (mset (preorder t)) a" by (simp add: count_mset)
  also have "\<dots> = (if rootOf t = a then 1 else 0) +
      (\<Sum>p\<leftarrow>preorder t. count_list (children (h ! p)) a)"
    by (subst preorder_mset [OF sh]) (simp add: count_sum_list comp_def count_mset)
  also have "(\<Sum>p\<leftarrow>preorder t. count_list (children (h ! p)) a)
      = (\<Sum>p\<leftarrow>preorder t. if a < length h \<and> parent (h ! a) = Some p then 1 else 0)"
    using children_count [OF wf shape_preorder_lt [OF sh]]
    by (auto intro!: arg_cong [where f = sum_list])
  also have "\<dots> = (if a < length h
      then (case parent (h ! a) of None \<Rightarrow> 0 | Some q \<Rightarrow> count_list (preorder t) q) else 0)"
  proof (cases "a < length h")
    case False
    then show ?thesis by simp
  next
    case True
    show ?thesis
    proof (cases "parent (h ! a)")
      case None
      with True show ?thesis by simp
    next
      case (Some q)
      with True show ?thesis using sum_list_indicator [of q "preorder t"] by simp
    qed
  qed
  finally show ?thesis .
qed

lemma preorder_once:
  assumes wf: "wellFormed h r" and sh: "shape h t" and rt: "rootOf t = r"
  shows "a < length h \<Longrightarrow> ancestor h a k = Some r \<Longrightarrow> count_list (preorder t) a = 1"
proof (induction k arbitrary: a)
  case 0
  then have "a = r" by simp
  with wf_root [OF wf] rt show ?case by (simp add: preorder_count [OF wf sh])
next
  case (Suc k)
  show ?case
  proof (cases "a = r")
    case True
    with wf_root [OF wf] rt show ?thesis by (simp add: preorder_count [OF wf sh])
  next
    case False
    from wf_parent [OF wf Suc.prems(1) False] obtain q where q: "q < length h" "parent (h ! a) = Some q"
      by blast
    with Suc.prems(2) have "ancestor h q k = Some r" by (simp add: ancestor_Suc)
    from Suc.IH [OF q(1) this] have "count_list (preorder t) q = 1" .
    with q False rt Suc.prems(1) show ?thesis by (simp add: preorder_count [OF wf sh, of a])
  qed
qed

lemma preorder_all:
  assumes wf: "wellFormed h r" and sh: "shape h t" and rt: "rootOf t = r"
  shows "mset (preorder t) = mset [0..<length h]"
proof (rule multiset_eqI)
  fix a
  show "count (mset (preorder t)) a = count (mset [0..<length h]) a"
  proof (cases "a < length h")
    case True
    from wf_depth [OF wf True] obtain k where "ancestor h a k = Some r" by blast
    from preorder_once [OF wf sh rt True this] True show ?thesis
      by (simp add: count_mset)
  next
    case False
    with shape_preorder_lt [OF sh] have "a \<notin> set (preorder t)" by blast
    with False show ?thesis by (simp add: count_mset count_list_0_iff)
  qed
qed

lemma wf_tree:
  assumes "wellFormed h r"
  shows "\<exists>t. rootOf t = r \<and> shape h t \<and> mset (preorder t) = mset [0..<length h]"
proof -
  from wf_root [OF assms] have "r < length h" by simp
  from tree_exists [OF assms this] obtain t where "rootOf t = r" "shape h t" by blast
  with preorder_all [OF assms this(2,1)] show ?thesis by blast
qed

section \<open>Properties of the renderer\<close>

lemma wayUp_Suc:
  "parent (h ! a) = Some p \<Longrightarrow> wayUp h a (Suc j) = a # wayUp h p j"
  by (simp add: wayUp_def map_upt_Suc ancestor_Suc del: upt_Suc)

lemma wayUp_1: "wayUp h a (Suc 0) = [a]"
  by (simp add: wayUp_def)

lemma pathPartsLoop_result:
  "ancestor h a n = None \<Longrightarrow>
     \<exists>j\<le>n. pathPartsLoop h (Some a) acc = Some (map (\<lambda>b. name (h ! b)) (rev (wayUp h a j)) @ acc) \<and>
       (\<forall>i<j. \<exists>b. ancestor h a i = Some b \<and> name (h ! b) \<noteq> js ''.'') \<and>
       (ancestor h a j = None \<or> (\<exists>b. ancestor h a j = Some b \<and> name (h ! b) = js ''.''))"
proof (induction n arbitrary: a acc)
  case 0
  then show ?case by simp
next
  case (Suc n)
  show ?case
  proof (cases "name (h ! a) = js ''.''")
    case True
    have "pathPartsLoop h (Some a) acc = Some acc"
      by (subst pathPartsLoop.simps) (simp add: True)
    with True have "0 \<le> Suc n \<and>
       pathPartsLoop h (Some a) acc = Some (map (\<lambda>b. name (h ! b)) (rev (wayUp h a 0)) @ acc) \<and>
       (\<forall>i<0. \<exists>b. ancestor h a i = Some b \<and> name (h ! b) \<noteq> js ''.'') \<and>
       (ancestor h a 0 = None \<or> (\<exists>b. ancestor h a 0 = Some b \<and> name (h ! b) = js ''.''))"
      by (simp add: wayUp_def)
    then show ?thesis by blast
  next
    case False
    show ?thesis
    proof (cases "parent (h ! a)")
      case None
      have "pathPartsLoop h (Some a) acc = pathPartsLoop h None (name (h ! a) # acc)"
        by (subst pathPartsLoop.simps) (simp add: False None)
      also have "\<dots> = Some (name (h ! a) # acc)"
        by (subst pathPartsLoop.simps) simp
      finally have "Suc 0 \<le> Suc n \<and>
         pathPartsLoop h (Some a) acc = Some (map (\<lambda>b. name (h ! b)) (rev (wayUp h a (Suc 0))) @ acc) \<and>
         (\<forall>i<Suc 0. \<exists>b. ancestor h a i = Some b \<and> name (h ! b) \<noteq> js ''.'') \<and>
         (ancestor h a (Suc 0) = None \<or> (\<exists>b. ancestor h a (Suc 0) = Some b \<and> name (h ! b) = js ''.''))"
        using False None by (simp add: wayUp_1 ancestor_Suc)
      then show ?thesis by blast
    next
      case (Some p)
      with Suc.prems have "ancestor h p n = None" by (simp add: ancestor_Suc)
      from Suc.IH [OF this, of "name (h ! a) # acc"] obtain j where j: "j \<le> n"
        "pathPartsLoop h (Some p) (name (h ! a) # acc)
           = Some (map (\<lambda>b. name (h ! b)) (rev (wayUp h p j)) @ name (h ! a) # acc)"
        "\<forall>i<j. \<exists>b. ancestor h p i = Some b \<and> name (h ! b) \<noteq> js ''.''"
        "ancestor h p j = None \<or> (\<exists>b. ancestor h p j = Some b \<and> name (h ! b) = js ''.'')"
        by blast
      have step: "pathPartsLoop h (Some a) acc = pathPartsLoop h (Some p) (name (h ! a) # acc)"
        by (subst pathPartsLoop.simps) (simp add: False Some)
      have below: "\<exists>b. ancestor h a i = Some b \<and> name (h ! b) \<noteq> js ''.''" if "i < Suc j" for i
      proof (cases i)
        case 0
        with False show ?thesis by simp
      next
        case (Suc i')
        with that j(3) Some show ?thesis by (simp add: ancestor_Suc)
      qed
      have "Suc j \<le> Suc n \<and>
         pathPartsLoop h (Some a) acc = Some (map (\<lambda>b. name (h ! b)) (rev (wayUp h a (Suc j))) @ acc) \<and>
         (\<forall>i<Suc j. \<exists>b. ancestor h a i = Some b \<and> name (h ! b) \<noteq> js ''.'') \<and>
         (ancestor h a (Suc j) = None \<or> (\<exists>b. ancestor h a (Suc j) = Some b \<and> name (h ! b) = js ''.''))"
        using j(1,2,4) step below Some by (simp add: wayUp_Suc ancestor_Suc)
      then show ?thesis by blast
    qed
  qed
qed

lemma pathPartsLoop_None: "pathPartsLoop h None acc = Some acc"
  by (subst pathPartsLoop.simps) simp

lemma prefixLoop_terminates:
  "ancestor h a n = None \<Longrightarrow> \<exists>cs. prefixLoop h ls (Some a) chunks = Some cs"
proof (induction n arbitrary: a chunks)
  case 0
  then show ?case by simp
next
  case (Suc n)
  show ?case
  proof (cases "parent (h ! a)")
    case None
    have "prefixLoop h ls (Some a) chunks = Some chunks"
      by (subst prefixLoop.simps) (simp add: None)
    then show ?thesis by blast
  next
    case (Some p)
    with Suc.prems have "ancestor h p n = None" by (simp add: ancestor_Suc)
    from Suc.IH [OF this] obtain cs where
      "prefixLoop h ls (Some p) ((if isLastChild h a then EMPTY ls else DIRECTORY ls) # chunks) = Some cs"
      by blast
    moreover have "prefixLoop h ls (Some a) chunks
        = prefixLoop h ls (Some p) ((if isLastChild h a then EMPTY ls else DIRECTORY ls) # chunks)"
      by (subst prefixLoop.simps) (simp add: Some)
    ultimately show ?thesis by simp
  qed
qed

lemma getName_terminates:
  assumes wf: "wellFormed h r" and a: "a < length h"
  shows "\<exists>nm. getName h a options = Some nm"
proof (cases "parent (h ! a)")
  case None
  then show ?thesis by (simp add: getName_def Let_def)
next
  case (Some p)
  with wf_only_root [OF wf a] have "a \<noteq> r" by simp
  from wf_parent [OF wf a this] Some have "p < length h" by auto
  from pathPartsLoop_result [OF wf_acyclic [OF wf this], of "[]"] obtain parts where
    "pathPartsLoop h (Some p) [] = Some parts" by blast
  with Some show ?thesis by (simp add: getName_def Let_def)
qed

lemma getAsciiLine_ok:
  assumes wf: "wellFormed h r" and a: "a < length h"
    and cs: "LINE_STRINGS (charsetOr (charset options)) = Some ls"
  shows "\<exists>l. getAsciiLine h a options = Some (Inr l) \<and>
     (l = None) = (a = r \<and> \<not> truthy (rootDot options))"
proof (cases "parent (h ! a)")
  case None
  with wf_only_root [OF wf a] have "a = r" by simp
  with None cs show ?thesis by (simp add: getAsciiLine_def Let_def)
next
  case (Some p)
  with wf_only_root [OF wf a] have ne: "a \<noteq> r" by simp
  from wf_parent [OF wf a ne] Some have p: "p < length h" by auto
  from getName_terminates [OF wf a] obtain nm where nm: "getName h a options = Some nm" by blast
  from prefixLoop_terminates [OF wf_acyclic [OF wf p]] obtain chunks where
    "prefixLoop h ls (Some p) [if isLastChild h a then LAST_CHILD ls else CHILD ls, nm] = Some chunks"
    by blast
  with Some cs nm ne show ?thesis by (simp add: getAsciiLine_def Let_def)
qed

lemma treeLoop_subtree:
  assumes ok: "\<And>a. a < length h \<Longrightarrow> \<exists>l. getAsciiLine h a options = Some (Inr l)"
  shows "shape h t \<Longrightarrow>
     treeLoop h options (rootOf t # rest) lines
       = treeLoop h options rest (lines @ concat (map (emitted h options) (preorder t)))"
proof (induction t arbitrary: rest lines)
  case (Node a ts)
  have forest: "treeLoop h options (map rootOf us @ rest') lines'
       = treeLoop h options rest' (lines' @ concat (map (emitted h options) (concat (map preorder us))))"
    if "set us \<subseteq> set ts" for us rest' lines'
    using that
  proof (induction us arbitrary: lines')
    case Nil
    then show ?case by simp
  next
    case (Cons u us)
    from Cons.prems Node.prems have u: "u \<in> set ts" "shape h u" by auto
    from Node.IH [OF u] Cons.IH Cons.prems show ?case by simp
  qed
  from Node.prems have a: "a < length h" and ch: "children (h ! a) = map rootOf ts" by simp_all
  from ok [OF a] obtain l where l: "getAsciiLine h a options = Some (Inr l)" by blast
  have "treeLoop h options (a # rest) lines
      = treeLoop h options (children (h ! a) @ rest) (lines @ emitted h options a)"
    by (subst treeLoop.simps) (simp add: l emitted_def split: option.splits)
  also have "\<dots> = treeLoop h options rest
      (lines @ emitted h options a @ concat (map (emitted h options) (concat (map preorder ts))))"
    unfolding ch using forest [of ts rest "lines @ emitted h options a"] by simp
  finally show ?case by simp
qed

lemma treeLoop_Nil: "treeLoop h options [] lines = Some (Inr lines)"
  by (subst treeLoop.simps) simp

lemma sum_list_mset_cong:
  "mset xs = mset ys \<Longrightarrow> sum_list (map g xs) = (sum_list (map g ys) :: nat)"
  by (metis mset_map sum_mset_sum_list)

lemma count_except:
  "sum_list (map (\<lambda>a. if a = r then 0 else (1::nat)) [0..<n]) = (if r < n then n - 1 else n)"
  by (induction n) auto

lemma render_lines:
  assumes wf: "wellFormed h r"
    and cs: "LINE_STRINGS (charsetOr (charset options)) = Some ls"
  shows "\<exists>lines. treeLoop h options [r] [] = Some (Inr lines) \<and>
     length lines = (if truthy (rootDot options) then length h else length h - 1)"
proof -
  from wf_tree [OF wf] obtain t where t: "rootOf t = r" "shape h t"
    "mset (preorder t) = mset [0..<length h]" by blast
  have ok: "\<exists>l. getAsciiLine h a options = Some (Inr l)" if "a < length h" for a
    using getAsciiLine_ok [OF wf that cs] by blast
  from treeLoop_subtree [OF ok t(2), of "[]" "[]"] t(1)
  have run: "treeLoop h options [r] [] = Some (Inr (concat (map (emitted h options) (preorder t))))"
    by (simp add: treeLoop_Nil)
  have len: "length (emitted h options a) = (if a = r \<and> \<not> truthy (rootDot options) then 0 else 1)"
    if "a < length h" for a
    using getAsciiLine_ok [OF wf that cs] by (auto simp: emitted_def)
  have "length (concat (map (emitted h options) (preorder t)))
      = sum_list (map (\<lambda>a. length (emitted h options a)) (preorder t))"
    by (simp add: length_concat comp_def)
  also have "\<dots> = sum_list (map (\<lambda>a. length (emitted h options a)) [0..<length h])"
    by (rule sum_list_mset_cong [OF t(3)])
  also have "\<dots> = sum_list (map (\<lambda>a. if a = r \<and> \<not> truthy (rootDot options) then 0 else 1) [0..<length h])"
    using len by (auto intro!: arg_cong [where f = sum_list])
  also have "\<dots> = (if truthy (rootDot options) then length h else length h - 1)"
  proof (cases "truthy (rootDot options)")
    case True
    then show ?thesis by (simp add: sum_list_triv)
  next
    case False
    with count_except [of r "length h"] wf_root [OF wf] show ?thesis by simp
  qed
  finally show ?thesis using run by simp
qed

lemma parse_wellFormed:
  assumes "parseInput input = Inr (h, root)"
  shows "root = 0 \<and> wellFormed h 0 \<and> (\<exists>ss. splitInput input = Inr ss \<and> length h = Suc (length ss))"
proof -
  from assms obtain ss path where ss: "splitInput input = Inr ss"
    and loop: "attachLoop ([rootNode], [0]) ss = Inr (h, path)" and root: "root = 0"
    by (auto simp: parseInput_def split: if_splits sum.splits)
  from parse_state [of input ss "[]"] ss loop have inv: "parserInv h path" by simp
  from attachLoop_names [OF loop] have "length h = Suc (length ss)" by simp
  with parserInv_wellFormed [OF inv] root ss show ?thesis by blast
qed

lemma LINE_STRINGS_known:
  "c \<in> {js ''ascii'', js ''utf-8''} \<Longrightarrow> \<exists>ls. LINE_STRINGS c = Some ls"
  by (auto simp: LINE_STRINGS_def)

text \<open>
  C1: the four-line input \<open>app\<close>, \<open>  src\<close>, \<open>    index.js\<close>, \<open>  package.json\<close> is parsed,
  and \<open>generateTree\<close> on the root, without options as well as with the default options
  spelled out, returns the five lines of the diagram joined by single line feeds, with
  nothing after the last line.
\<close>

theorem C1_scenario_utf8:
  "(case parseInput scenarioInput of
      Inl e \<Rightarrow> False
    | Inr (h, root) \<Rightarrow>
        generateTree h (Some root) None = Some (Inr scenarioOutput) \<and>
        generateTree h (Some root) (Some defaultOptions) = Some (Inr scenarioOutput))"
  by code_simp

text \<open>
  C3: for the tree of a successful \<open>parseInput\<close> and options whose character set in
  effect is one of the two known ones, \<open>generateTree\<close> returns; with \<open>rootDot: true\<close> it
  emits as many lines as the tree has nodes, the root included, and with
  \<open>rootDot: false\<close> one line less. The nodes are the cells of the store: the root and one
  node for each item of the input.
\<close>

theorem C3_line_count:
  assumes "parseInput input = Inr (h, root)"
    and "charsetOr (charset (spread defaultOptions opts)) \<in> {js ''ascii'', js ''utf-8''}"
  shows "(\<exists>lines. generateTreeLines h (Some root) (Some (opts\<lparr>rootDot := Val True\<rparr>)) = Some (Inr lines) \<and>
            generateTree h (Some root) (Some (opts\<lparr>rootDot := Val True\<rparr>))
              = Some (Inr (join newline lines)) \<and>
            length lines = length h) \<and>
         (\<exists>lines. generateTreeLines h (Some root) (Some (opts\<lparr>rootDot := Val False\<rparr>)) = Some (Inr lines) \<and>
            generateTree h (Some root) (Some (opts\<lparr>rootDot := Val False\<rparr>))
              = Some (Inr (join newline lines)) \<and>
            length lines = length h - 1) \<and>
         (\<exists>ss. splitInput input = Inr ss \<and> length h = Suc (length ss))"
proof -
  from parse_wellFormed [OF assms(1)] have root: "root = 0" and wf: "wellFormed h 0"
    and ss: "\<exists>ss. splitInput input = Inr ss \<and> length h = Suc (length ss)" by blast+
  have count: "\<exists>lines. generateTreeLines h (Some root) (Some (opts\<lparr>rootDot := Val b\<rparr>)) = Some (Inr lines) \<and>
      generateTree h (Some root) (Some (opts\<lparr>rootDot := Val b\<rparr>)) = Some (Inr (join newline lines)) \<and>
      length lines = (if b then length h else length h - 1)" for b
  proof -
    let ?merged = "spread defaultOptions (opts\<lparr>rootDot := Val b\<rparr>)"
    have "charset ?merged = charset (spread defaultOptions opts)" by (simp add: spread_def)
    with assms(2) LINE_STRINGS_known obtain ls where
      "LINE_STRINGS (charsetOr (charset ?merged)) = Some ls" by metis
    from render_lines [OF wf this] obtain lines where
      "treeLoop h ?merged [0] [] = Some (Inr lines)"
      "length lines = (if truthy (rootDot ?merged) then length h else length h - 1)" by blast
    moreover have "truthy (rootDot ?merged) = b" by (simp add: spread_def)
    ultimately show ?thesis
      by (simp add: generateTreeLines_def generateTree_def root newline_def)
  qed
  from count [of True] count [of False] ss show ?thesis by simp
qed

theorem C3_scenario_witness:
  "parseInput scenarioInput = Inr (scenarioHeap, 0) \<and> length scenarioHeap = 5 \<and>
   (\<exists>lines. generateTreeLines scenarioHeap (Some 0) (Some (emptyOptions\<lparr>rootDot := Val True\<rparr>))
              = Some (Inr lines) \<and> length lines = 5) \<and>
   (\<exists>lines. generateTreeLines scenarioHeap (Some 0) (Some (emptyOptions\<lparr>rootDot := Val False\<rparr>))
              = Some (Inr lines) \<and> length lines = 4)"
proof -
  have parsed: "parseInput scenarioInput = Inr (scenarioHeap, 0)"
    by code_simp
  have cs: "charsetOr (charset (spread defaultOptions emptyOptions)) \<in> {js ''ascii'', js ''utf-8''}"
    by (simp add: spread_def defaultOptions_def emptyOptions_def js_def)
  have len: "length scenarioHeap = 5"
    by (simp add: scenarioHeap_def)
  from C3_line_count [OF parsed cs] have
    "\<exists>lines. generateTreeLines scenarioHeap (Some 0) (Some (emptyOptions\<lparr>rootDot := Val True\<rparr>))
              = Some (Inr lines) \<and> length lines = length scenarioHeap"
    "\<exists>lines. generateTreeLines scenarioHeap (Some 0) (Some (emptyOptions\<lparr>rootDot := Val False\<rparr>))
              = Some (Inr lines) \<and> length lines = length scenarioHeap - 1"
    by blast+
  with parsed len show ?thesis by simp
qed

section \<open>Properties of the dispatcher\<close>

lemma charsetOr_nonempty: "charsetOr c \<noteq> []"
  by (cases c) (auto simp: js_def)

lemma getAsciiLine_cong:
  assumes "charsetOr (charset o1) = charsetOr (charset o2)"
    and "trailingDirSlash o1 = trailingDirSlash o2" and "fullPath o1 = fullPath o2"
    and "rootDot o1 = rootDot o2"
  shows "getAsciiLine h a o1 = getAsciiLine h a o2"
proof -
  have gn: "getName h a o1 = getName h a o2"
    unfolding getName_def assms(2) assms(3) by (rule refl)
  show ?thesis
    unfolding getAsciiLine_def assms(1) assms(4) gn by (rule refl)
qed

lemma treeLoop_cong_Some:
  assumes run: "treeLoop h o1 stack lines = Some y"
  shows "\<forall>o2. (\<forall>a. getAsciiLine h a o1 = getAsciiLine h a o2) \<longrightarrow>
           treeLoop h o2 stack lines = Some y"
proof (rule treeLoop.raw_induct
    [where P = "\<lambda>h o1 stack lines y.
       \<forall>o2. (\<forall>a. getAsciiLine h a o1 = getAsciiLine h a o2) \<longrightarrow>
            treeLoop h o2 stack lines = Some y", OF _ run], intro allI impI, goal_cases)
  case (1 treeLoop' h o1 stack lines y o2)
  note IH = 1(1) and step = 1(2) and same = 1(3)
  show ?case
  proof (cases stack)
    case Nil
    with step show ?thesis by (subst treeLoop.simps) simp
  next
    case (Cons item rest)
    have line: "getAsciiLine h item o2 = getAsciiLine h item o1"
      by (simp add: same)
    show ?thesis
    proof (cases "getAsciiLine h item o1")
      case None
      with step Cons show ?thesis by simp
    next
      case (Some res)
      show ?thesis
      proof (cases res)
        case (Inl e)
        with step Cons Some line show ?thesis
          by (subst treeLoop.simps) simp
      next
        case (Inr line')
        with step Cons Some have "treeLoop' h o1 (children (h ! item) @ rest)
            (case line' of None \<Rightarrow> lines | Some l \<Rightarrow> lines @ [l]) = Some y" by simp
        from IH [OF this] same have "treeLoop h o2 (children (h ! item) @ rest)
            (case line' of None \<Rightarrow> lines | Some l \<Rightarrow> lines @ [l]) = Some y"
          by blast
        with Cons Some Inr line show ?thesis
          by (subst treeLoop.simps) simp
      qed
    qed
  qed
qed

lemma treeLoop_cong:
  assumes "\<And>a. getAsciiLine h a o1 = getAsciiLine h a o2"
  shows "treeLoop h o1 stack lines = treeLoop h o2 stack lines"
proof (cases "treeLoop h o1 stack lines")
  case (Some y)
  from treeLoop_cong_Some [OF this] assms have "treeLoop h o2 stack lines = Some y" by blast
  with Some show ?thesis by simp
next
  case None
  show ?thesis
  proof (cases "treeLoop h o2 stack lines")
    case None
    with \<open>treeLoop h o1 stack lines = None\<close> show ?thesis by simp
  next
    case (Some y)
    from treeLoop_cong_Some [OF this] assms have "treeLoop h o1 stack lines = Some y" by simp
    with None show ?thesis by simp
  qed
qed

lemma generateTree_effective:
  "generateTree h (Some root) (Some given)
     = generateTree h (Some root) (Some (given\<lparr>charset := Val (effectiveCharset (Some given))\<rparr>))"
proof -
  let ?o1 = "spread defaultOptions given"
  let ?o2 = "spread defaultOptions (given\<lparr>charset := Val (effectiveCharset (Some given))\<rparr>)"
  have "charsetOr (charset ?o1) = charsetOr (charset ?o2)"
    by (simp add: spread_def effectiveCharset_def charsetOr_nonempty)
  moreover have "trailingDirSlash ?o1 = trailingDirSlash ?o2" "fullPath ?o1 = fullPath ?o2"
    "rootDot ?o1 = rootDot ?o2"
    by (simp_all add: spread_def)
  ultimately have "getAsciiLine h a ?o1 = getAsciiLine h a ?o2" for a
    by (rule getAsciiLine_cong)
  from treeLoop_cong [of h ?o1 ?o2, OF this] show ?thesis
    by (simp add: generateTree_def generateTreeLines_def)
qed

lemma effectiveCharset_cases:
  "effectiveCharset options =
     (case options of
        None \<Rightarrow> js ''utf-8''
      | Some given \<Rightarrow>
          (case charset given of
             Val c \<Rightarrow> if c = [] then js ''utf-8'' else c
           | Undefined \<Rightarrow> js ''utf-8''
           | Absent \<Rightarrow> js ''utf-8''))"
  by (simp add: effectiveCharset_def spread_def defaultOptions_def emptyOptions_def js_def
      split: option.splits optional.splits)

lemma charsetOr_override: "charsetOr (override (Val (js ''utf-8'')) c) = charsetOr c"
  by (cases c) simp_all

lemma effectiveCharset_carried:
  "effectiveCharset options
     = charsetOr (charset (case options of None \<Rightarrow> emptyOptions | Some given \<Rightarrow> given))"
  by (simp add: effectiveCharset_def spread_def defaultOptions_def charsetOr_override)

text \<open>
  C6 as stated fails: with options that carry the ASCII character set, an unrecognized
  format identifier is rendered in ASCII, not in the default character set.
\<close>

theorem C6_fallback_counterexample:
  "\<not> (\<forall>ser stringify h root format options.
        format \<notin> set recognizedFormats \<longrightarrow>
        formatTree ser stringify h (Some root) format options = specFallback h (Some root) options)"
proof
  assume all: "\<forall>ser stringify h root format options.
        format \<notin> set recognizedFormats \<longrightarrow>
        formatTree ser stringify h (Some root) format options = specFallback h (Some root) options"
  have unknown: "js ''tree'' \<notin> set recognizedFormats"
    by code_simp
  have "formatTree noSerializers (\<lambda>v. []) scenarioHeap (Some 0) (js ''tree'') (Some asciiOnly)
      \<noteq> specFallback scenarioHeap (Some 0) (Some asciiOnly)"
    by code_simp
  with all unknown show False by blast
qed

text \<open>
  C6, amended: for an unrecognized format identifier \<open>formatTree\<close> returns what
  \<open>generateTree\<close> returns for the options of the caller as they are (an omitted argument
  being the empty options). The character set in effect is the one the renderer takes from
  these options, \<open>options.charset || 'utf-8'\<close>: the character set they carry when it is a
  non-empty string, and \<open>utf-8\<close> when the character set is absent from them, undefined, or
  the empty string. The result is the one of the renderer for the same options with the
  character set in effect written into them; when that character set is \<open>utf-8\<close>, it is
  the fallback as the specification words it.
\<close>

theorem C6_fallback_passes_options:
  assumes "format \<notin> set recognizedFormats"
  shows "formatTree ser stringify h (Some root) format options
           = generateTree h (Some root)
               (Some (case options of None \<Rightarrow> emptyOptions | Some given \<Rightarrow> given)) \<and>
         formatTree ser stringify h (Some root) format options = generateTree h (Some root) options \<and>
         formatTree ser stringify h (Some root) format options
           = generateTree h (Some root)
               (Some ((case options of None \<Rightarrow> emptyOptions | Some given \<Rightarrow> given)
                        \<lparr>charset := Val (effectiveCharset options)\<rparr>)) \<and>
         effectiveCharset options
           = charsetOr (charset (case options of None \<Rightarrow> emptyOptions | Some given \<Rightarrow> given)) \<and>
         effectiveCharset options =
           (case options of
              None \<Rightarrow> js ''utf-8''
            | Some given \<Rightarrow>
                (case charset given of
                   Val c \<Rightarrow> if c = [] then js ''utf-8'' else c
                 | Undefined \<Rightarrow> js ''utf-8''
                 | Absent \<Rightarrow> js ''utf-8'')) \<and>
         (effectiveCharset options = js ''utf-8'' \<longrightarrow>
            formatTree ser stringify h (Some root) format options = specFallback h (Some root) options)"
proof -
  let ?given = "case options of None \<Rightarrow> emptyOptions | Some given \<Rightarrow> given"
  from assms have ne: "format \<noteq> js ''ascii''" "format \<noteq> js ''utf-8''" "format \<noteq> js ''json-nested''"
    "format \<noteq> js ''json-array''" "format \<noteq> js ''json-flat''" "format \<noteq> js ''yaml''"
    "format \<noteq> js ''xml''" "format \<noteq> js ''dot''" "format \<noteq> js ''markdown''"
    by (auto simp: recognizedFormats_def)
  have a: "formatTree ser stringify h (Some root) format options = generateTree h (Some root) (Some ?given)"
    using ne by (simp add: formatTree_def Let_def)
  have "generateTree h (Some root) (Some ?given) = generateTree h (Some root) options"
    by (cases options) (simp_all add: generateTree_def generateTreeLines_def)
  with a have b: "formatTree ser stringify h (Some root) format options = generateTree h (Some root) options"
    by simp
  have eff: "effectiveCharset (Some ?given) = effectiveCharset options"
    by (cases options) (simp_all add: effectiveCharset_def)
  have "generateTree h (Some root) (Some ?given)
      = generateTree h (Some root) (Some (?given\<lparr>charset := Val (effectiveCharset options)\<rparr>))"
    using generateTree_effective [of h root ?given] by (simp only: eff)
  with a have c: "formatTree ser stringify h (Some root) format options
      = generateTree h (Some root) (Some (?given\<lparr>charset := Val (effectiveCharset options)\<rparr>))"
    by (rule trans)
  have d: "effectiveCharset options = js ''utf-8'' \<longrightarrow>
      formatTree ser stringify h (Some root) format options = specFallback h (Some root) options"
  proof
    assume "effectiveCharset options = js ''utf-8''"
    then have "generateTree h (Some root) (Some (?given\<lparr>charset := Val (effectiveCharset options)\<rparr>))
        = specFallback h (Some root) options"
      by (simp add: specFallback_def defaultOptions_def)
    with c show "formatTree ser stringify h (Some root) format options = specFallback h (Some root) options"
      by (rule trans)
  qed
  show ?thesis
    by (rule conjI [OF a conjI [OF b conjI [OF c conjI [OF effectiveCharset_carried
          conjI [OF effectiveCharset_cases d]]]]])
qed

theorem C6_fallback_witness:
  "js ''tree'' \<notin> set recognizedFormats \<and>
   effectiveCharset (Some asciiOnly) = js ''ascii'' \<and>
   effectiveCharset (Some emptyCharset) = js ''utf-8'' \<and>
   effectiveCharset (Some undefinedCharset) = js ''utf-8'' \<and>
   (\<forall>ser stringify.
      formatTree ser stringify scenarioHeap (Some 0) (js ''tree'') (Some asciiOnly)
        = Some (Inr scenarioAscii)) \<and>
   (\<forall>ser stringify.
      formatTree ser stringify scenarioHeap (Some 0) (js ''tree'') (Some emptyCharset)
        = Some (Inr scenarioOutput)) \<and>
   (\<forall>ser stringify.
      formatTree ser stringify scenarioHeap (Some 0) (js ''tree'') (Some undefinedCharset)
        = Some (Inr scenarioOutput))"
proof -
  have unknown: "js ''tree'' \<notin> set recognizedFormats"
    by code_simp
  have eff: "effectiveCharset (Some asciiOnly) = js ''ascii''"
    "effectiveCharset (Some emptyCharset) = js ''utf-8''"
    "effectiveCharset (Some undefinedCharset) = js ''utf-8''"
    by code_simp+
  have ascii: "generateTree scenarioHeap (Some 0) (Some asciiOnly) = Some (Inr scenarioAscii)"
    by code_simp
  have utf: "specFallback scenarioHeap (Some 0) (Some emptyCharset) = Some (Inr scenarioOutput)"
    "specFallback scenarioHeap (Some 0) (Some undefinedCharset) = Some (Inr scenarioOutput)"
    by code_simp+
  have 1: "formatTree ser stringify scenarioHeap (Some 0) (js ''tree'') (Some asciiOnly)
        = Some (Inr scenarioAscii)" for ser stringify
  proof -
    from C6_fallback_passes_options [OF unknown, of ser stringify scenarioHeap 0 "Some asciiOnly"]
    have "formatTree ser stringify scenarioHeap (Some 0) (js ''tree'') (Some asciiOnly)
        = generateTree scenarioHeap (Some 0) (Some asciiOnly)"
      by (elim conjE) assumption
    from this ascii show ?thesis by (rule trans)
  qed
  have 2: "formatTree ser stringify scenarioHeap (Some 0) (js ''tree'') (Some emptyCharset)
        = Some (Inr scenarioOutput)" for ser stringify
  proof -
    from C6_fallback_passes_options [OF unknown, of ser stringify scenarioHeap 0 "Some emptyCharset"]
    have "effectiveCharset (Some emptyCharset) = js ''utf-8'' \<longrightarrow>
        formatTree ser stringify scenarioHeap (Some 0) (js ''tree'') (Some emptyCharset)
          = specFallback scenarioHeap (Some 0) (Some emptyCharset)"
      by (elim conjE) assumption
    from mp [OF this eff(2)] utf(1) show ?thesis by (rule trans)
  qed
  have 3: "formatTree ser stringify scenarioHeap (Some 0) (js ''tree'') (Some undefinedCharset)
        = Some (Inr scenarioOutput)" for ser stringify
  proof -
    from C6_fallback_passes_options [OF unknown, of ser stringify scenarioHeap 0 "Some undefinedCharset"]
    have "effectiveCharset (Some undefinedCharset) = js ''utf-8'' \<longrightarrow>
        formatTree ser stringify scenarioHeap (Some 0) (js ''tree'') (Some undefinedCharset)
          = specFallback scenarioHeap (Some 0) (Some undefinedCharset)"
      by (elim conjE) assumption
    from mp [OF this eff(3)] utf(2) show ?thesis by (rule trans)
  qed
  from unknown eff 1 2 3 show ?thesis by simp
qed

section \<open>Properties of the structured serializers\<close>

lemma getFullPath_result:
  assumes wf: "wellFormed h r" and a: "a < length h"
  shows "\<exists>j\<le>length h. getFullPath h a = Some (join (js ''/'') (map (\<lambda>b. name (h ! b)) (rev (wayUp h a j)))) \<and>
       (\<forall>i<j. \<exists>b. ancestor h a i = Some b \<and> name (h ! b) \<noteq> js ''.'') \<and>
       (ancestor h a j = None \<or> (\<exists>b. ancestor h a j = Some b \<and> name (h ! b) = js ''.''))"
proof -
  from pathPartsLoop_result [OF wf_acyclic [OF wf a], of "[]"] obtain j where j: "j \<le> length h"
    "pathPartsLoop h (Some a) [] = Some (map (\<lambda>b. name (h ! b)) (rev (wayUp h a j)) @ [])"
    "\<forall>i<j. \<exists>b. ancestor h a i = Some b \<and> name (h ! b) \<noteq> js ''.''"
    "ancestor h a j = None \<or> (\<exists>b. ancestor h a j = Some b \<and> name (h ! b) = js ''.'')"
    by blast
  from j(2) have "getFullPath h a = Some (join (js ''/'') (map (\<lambda>b. name (h ! b)) (rev (wayUp h a j))))"
    by (simp add: getFullPath_def)
  with j(1,3,4) show ?thesis by blast
qed

lemma getFullPath_defined:
  assumes "wellFormed h r" "a < length h"
  shows "\<exists>p. getFullPath h a = Some p"
  using getFullPath_result [OF assms] by blast

lemma dotProcessItem_subtree:
  assumes ok: "\<And>a. a < length h \<Longrightarrow> \<exists>p. getFullPath h a = Some p"
  shows "shape h t \<Longrightarrow>
     dotProcessItem h (rootOf t) paths
       = Some (paths @ map (\<lambda>a. the (getFullPath h a))
                          (filter (\<lambda>a. name (h ! a) \<noteq> js ''.'') (preorder t)))"
proof (induction t arbitrary: paths)
  case (Node a ts)
  let ?named = "\<lambda>a. name (h ! a) \<noteq> js ''.''"
  let ?path = "\<lambda>a. the (getFullPath h a)"
  have forest: "forEachM (\<lambda>child acc. dotProcessItem h child acc) (map rootOf us) paths'
       = Some (paths' @ map ?path (filter ?named (concat (map preorder us))))"
    if "set us \<subseteq> set ts" for us paths'
    using that
  proof (induction us arbitrary: paths')
    case Nil
    then show ?case by simp
  next
    case (Cons u us)
    from Cons.prems Node.prems have u: "u \<in> set ts" "shape h u" by auto
    from Node.IH [OF u] Cons.IH Cons.prems show ?case by simp
  qed
  from Node.prems have a: "a < length h" and ch: "children (h ! a) = map rootOf ts" by simp_all
  from ok [OF a] obtain p where p: "getFullPath h a = Some p" by blast
  have "dotProcessItem h a paths
      = forEachM (\<lambda>child acc. dotProcessItem h child acc) (map rootOf ts)
          (paths @ map ?path (filter ?named [a]))"
    by (subst dotProcessItem.simps) (simp add: p ch)
  also have "\<dots> = Some (paths @ map ?path (filter ?named [a])
      @ map ?path (filter ?named (concat (map preorder ts))))"
    using forest [of ts] by simp
  finally show ?case by simp
qed


lemma filter_mset_cong_lists:
  "mset xs = mset ys \<Longrightarrow> mset (filter P xs) = mset (filter P ys)"
  by simp

lemma dotPaths_result:
  assumes wf: "wellFormed h r"
  shows "\<exists>paths. dotPaths h (Some r) = Some (Inr paths) \<and> sorted paths \<and>
     mset paths = image_mset (\<lambda>a. the (getFullPath h a)) (mset (namedNodes h))"
proof -
  from wf_tree [OF wf] obtain t where t: "rootOf t = r" "shape h t"
    "mset (preorder t) = mset [0..<length h]" by blast
  let ?ps = "map (\<lambda>a. the (getFullPath h a)) (filter (\<lambda>a. name (h ! a) \<noteq> js ''.'') (preorder t))"
  from dotProcessItem_subtree [OF getFullPath_defined [OF wf] t(2), of "[]"] t(1)
  have "dotPaths h (Some r) = Some (Inr (sort ?ps))"
    by (simp add: dotPaths_def)
  moreover have "mset (sort ?ps) = image_mset (\<lambda>a. the (getFullPath h a)) (mset (namedNodes h))"
    using filter_mset_cong_lists [OF t(3), of "\<lambda>a. name (h ! a) \<noteq> js ''.''"]
    by (simp add: namedNodes_def)
  ultimately show ?thesis by simp
qed








lemma length_filter_except:
  assumes "r < n" "\<And>a. a < n \<Longrightarrow> P a = (a \<noteq> r)"
  shows "length (filter P [0..<n]) = n - 1"
proof -
  have "length (filter P [0..<n]) = sum_list (map (\<lambda>a. if P a then 1 else 0) [0..<n])"
    by (induction n) simp_all
  also have "\<dots> = sum_list (map (\<lambda>a. if a = r then 0 else 1) [0..<n])"
    using assms(2) by (auto intro!: arg_cong [where f = sum_list])
  also have "\<dots> = n - 1" using count_except [of r n] assms(1) by simp
  finally show ?thesis .
qed

text \<open>
  C7 as stated fails: the tree of the lines \<open>a\<close>, \<open>  .\<close>, \<open>    b\<close> has four nodes, and
  \<open>formatDot\<close> collects two paths for it, not three: the node named by the dot is left
  out.
\<close>

theorem C7_dot_paths_counterexample:
  "parseInput dotInput = Inr (dotHeap, 0) \<and>
   \<not> (\<forall>h root paths. wellFormed h root \<and> dotPaths h (Some root) = Some (Inr paths) \<longrightarrow>
         length paths = length h - 1)"
proof -
  have parsed: "parseInput dotInput = Inr (dotHeap, 0)"
    by code_simp
  have wf: "wellFormed dotHeap 0"
    by code_simp
  have paths: "dotPaths dotHeap (Some 0) = Some (Inr [js ''a'', js ''b''])"
    by code_simp
  have "length [js ''a'', js ''b''] \<noteq> length dotHeap - 1"
    by (simp add: dotHeap_def)
  with wf paths parsed show ?thesis by blast
qed

text \<open>
  C7, amended: for every well-formed tree \<open>formatDot\<close> returns; its lines are sorted
  ascending, and there is one line for each node whose name is not the dot, with no
  distinction between files and directories. The line of a node is its path as
  \<open>getFullPath\<close> builds it, which is cut at the nearest node named by the dot: the names,
  joined by slashes and written from the top down, of the first \<open>j\<close> nodes on the way up
  from the node, the node itself counted (\<open>j\<close> is at least one), where none of these \<open>j\<close>
  nodes is named by the dot and the way up either ends after them or goes on with a node
  named by the dot. The number of paths is the number of nodes whose name is not the dot;
  it is the number of nodes minus one when the root is the only node with that name.
\<close>

theorem C7_dot_paths:
  assumes "wellFormed h root"
  shows "\<exists>paths. dotPaths h (Some root) = Some (Inr paths) \<and>
     formatDot h (Some root) = Some (Inr (join newline paths)) \<and>
     sorted paths \<and>
     mset paths = image_mset (\<lambda>a. the (getFullPath h a)) (mset (namedNodes h)) \<and>
     length paths = length (namedNodes h) \<and>
     (\<forall>a \<in> set (namedNodes h).
        \<exists>j. 0 < j \<and> j \<le> length h \<and>
            getFullPath h a = Some (join (js ''/'') (map (\<lambda>b. name (h ! b)) (rev (wayUp h a j)))) \<and>
            (\<forall>i<j. \<exists>b. ancestor h a i = Some b \<and> name (h ! b) \<noteq> js ''.'') \<and>
            (ancestor h a j = None \<or> (\<exists>b. ancestor h a j = Some b \<and> name (h ! b) = js ''.''))) \<and>
     (name (h ! root) = js ''.'' \<and> (\<forall>a<length h. a \<noteq> root \<longrightarrow> name (h ! a) \<noteq> js ''.'') \<longrightarrow>
        length paths = length h - 1)"
proof -
  from dotPaths_result [OF assms] obtain paths where paths: "dotPaths h (Some root) = Some (Inr paths)"
    "sorted paths" "mset paths = image_mset (\<lambda>a. the (getFullPath h a)) (mset (namedNodes h))"
    by blast
  from paths(1) have fmt: "formatDot h (Some root) = Some (Inr (join newline paths))"
    by (simp add: formatDot_def newline_def)
  from paths(3) have len: "length paths = length (namedNodes h)"
    by (metis size_mset size_image_mset)
  have each: "\<exists>j. 0 < j \<and> j \<le> length h \<and>
            getFullPath h a = Some (join (js ''/'') (map (\<lambda>b. name (h ! b)) (rev (wayUp h a j)))) \<and>
            (\<forall>i<j. \<exists>b. ancestor h a i = Some b \<and> name (h ! b) \<noteq> js ''.'') \<and>
            (ancestor h a j = None \<or> (\<exists>b. ancestor h a j = Some b \<and> name (h ! b) = js ''.''))"
    if "a \<in> set (namedNodes h)" for a
  proof -
    from that have a: "a < length h" and nm: "name (h ! a) \<noteq> js ''.''"
      by (simp_all add: namedNodes_def)
    from getFullPath_result [OF assms a] obtain j where j: "j \<le> length h"
      "getFullPath h a = Some (join (js ''/'') (map (\<lambda>b. name (h ! b)) (rev (wayUp h a j))))"
      "\<forall>i<j. \<exists>b. ancestor h a i = Some b \<and> name (h ! b) \<noteq> js ''.''"
      "ancestor h a j = None \<or> (\<exists>b. ancestor h a j = Some b \<and> name (h ! b) = js ''.'')"
      by blast
    have "0 < j"
    proof (rule ccontr)
      assume "\<not> 0 < j"
      then have "j = 0" by simp
      with j(4) nm show False by simp
    qed
    with j show ?thesis by blast
  qed
  have only: "length paths = length h - 1"
    if "name (h ! root) = js ''.'' \<and> (\<forall>a<length h. a \<noteq> root \<longrightarrow> name (h ! a) \<noteq> js ''.'')"
  proof -
    from that have "(name (h ! a) \<noteq> js ''.'') = (a \<noteq> root)" if "a < length h" for a
      using that by auto
    from length_filter_except [of root "length h" "\<lambda>a. name (h ! a) \<noteq> js ''.''", OF _ this]
      wf_root [OF assms] len show ?thesis by (simp add: namedNodes_def)
  qed
  from paths(1,2,3) fmt len each only show ?thesis by blast
qed

theorem C7_dot_paths_witness:
  "wellFormed dotHeap 0 \<and> namedNodes dotHeap = [1, 3] \<and>
   dotPaths dotHeap (Some 0) = Some (Inr [js ''a'', js ''b'']) \<and>
   getFullPath dotHeap 3 = Some (js ''b'') \<and> wayUp dotHeap 3 1 = [3] \<and>
   ancestor dotHeap 3 1 = Some 2 \<and> name (dotHeap ! 2) = js ''.'' \<and>
   (\<exists>paths. dotPaths dotHeap (Some 0) = Some (Inr paths) \<and> sorted paths \<and> length paths = 2) \<and>
   (\<exists>j. 0 < j \<and>
      getFullPath dotHeap 3
        = Some (join (js ''/'') (map (\<lambda>b. name (dotHeap ! b)) (rev (wayUp dotHeap 3 j)))) \<and>
      (\<forall>i<j. \<exists>b. ancestor dotHeap 3 i = Some b \<and> name (dotHeap ! b) \<noteq> js ''.''))"
proof -
  have wf: "wellFormed dotHeap 0"
    by code_simp
  have named: "namedNodes dotHeap = [1, 3]"
    by code_simp
  have ev: "dotPaths dotHeap (Some 0) = Some (Inr [js ''a'', js ''b''])"
    "getFullPath dotHeap 3 = Some (js ''b'')" "wayUp dotHeap 3 1 = [3]"
    "ancestor dotHeap 3 1 = Some 2" "name (dotHeap ! 2) = js ''.''"
    by code_simp+
  from C7_dot_paths [OF wf] obtain paths where p:
    "dotPaths dotHeap (Some 0) = Some (Inr paths)" "sorted paths"
    "length paths = length (namedNodes dotHeap)"
    and each: "\<forall>a \<in> set (namedNodes dotHeap).
        \<exists>j. 0 < j \<and> j \<le> length dotHeap \<and>
            getFullPath dotHeap a
              = Some (join (js ''/'') (map (\<lambda>b. name (dotHeap ! b)) (rev (wayUp dotHeap a j)))) \<and>
            (\<forall>i<j. \<exists>b. ancestor dotHeap a i = Some b \<and> name (dotHeap ! b) \<noteq> js ''.'') \<and>
            (ancestor dotHeap a j = None \<or>
             (\<exists>b. ancestor dotHeap a j = Some b \<and> name (dotHeap ! b) = js ''.''))"
    by blast
  from each named have "\<exists>j. 0 < j \<and>
      getFullPath dotHeap 3
        = Some (join (js ''/'') (map (\<lambda>b. name (dotHeap ! b)) (rev (wayUp dotHeap 3 j)))) \<and>
      (\<forall>i<j. \<exists>b. ancestor dotHeap 3 i = Some b \<and> name (dotHeap ! b) \<noteq> js ''.'')"
    by simp blast
  moreover from p named
  have "\<exists>paths. dotPaths dotHeap (Some 0) = Some (Inr paths) \<and> sorted paths \<and> length paths = 2"
    by auto
  ultimately show ?thesis using wf named ev by blast
qed



lemma update_absent: "k \<notin> fst ` set ps \<Longrightarrow> AList.update k v ps = ps @ [(k, v)]"
  by (induction ps) auto

lemma setProperty_plain:
  "key \<noteq> js ''__proto__'' \<Longrightarrow>
     setProperty (JObject props proto) key v = JObject (AList.update key v props) proto"
  by (simp add: update_absent)

lemma createNestedObject_leaf:
  "children (h ! a) = [] \<Longrightarrow>
     createNestedObject h a
       = Some (if includesStr (name (h ! a)) (js ''dir'') then JObject [] ObjectPrototype else JNull)"
  by (subst createNestedObject.simps) simp

lemma nested_children_loop:
  assumes vals: "\<And>c. c \<in> set cs \<Longrightarrow> \<exists>v. createNestedObject h c = Some v"
    and names: "\<And>c. c \<in> set cs \<Longrightarrow> name (h ! c) \<noteq> js ''__proto__''"
  shows "\<exists>props'.
     forEachM (\<lambda>child result. Option.bind (createNestedObject h child)
                 (\<lambda>v. Some (setProperty result (name (h ! child)) v)))
       cs (JObject props ObjectPrototype) = Some (JObject props' ObjectPrototype) \<and>
     fst ` set props' = fst ` set props \<union> (\<lambda>c. name (h ! c)) ` set cs \<and>
     map_of props' = fold (\<lambda>c f. f(name (h ! c) \<mapsto> the (createNestedObject h c))) cs (map_of props)"
  using assms
proof (induction cs arbitrary: props)
  case Nil
  then show ?case by simp
next
  case (Cons c cs)
  from Cons.prems(1) [of c] obtain v where v: "createNestedObject h c = Some v" by auto
  from Cons.prems(2) [of c] have nm: "name (h ! c) \<noteq> js ''__proto__''" by simp
  let ?props1 = "AList.update (name (h ! c)) v props"
  have vs': "\<And>c'. c' \<in> set cs \<Longrightarrow> \<exists>v. createNestedObject h c' = Some v"
    using Cons.prems(1) by simp
  have ns': "\<And>c'. c' \<in> set cs \<Longrightarrow> name (h ! c') \<noteq> js ''__proto__''"
    using Cons.prems(2) by simp
  from Cons.IH [OF vs' ns', of ?props1] obtain props' where
    run: "forEachM (\<lambda>child result. Option.bind (createNestedObject h child)
                 (\<lambda>v. Some (setProperty result (name (h ! child)) v)))
       cs (JObject ?props1 ObjectPrototype) = Some (JObject props' ObjectPrototype)"
    and keys: "fst ` set props' = fst ` set ?props1 \<union> (\<lambda>c. name (h ! c)) ` set cs"
    and vals: "map_of props' = fold (\<lambda>c f. f(name (h ! c) \<mapsto> the (createNestedObject h c))) cs (map_of ?props1)"
    by blast
  have "forEachM (\<lambda>child result. Option.bind (createNestedObject h child)
                 (\<lambda>v. Some (setProperty result (name (h ! child)) v)))
       (c # cs) (JObject props ObjectPrototype) = Some (JObject props' ObjectPrototype)"
    using run v nm by (simp add: setProperty_plain del: setProperty.simps)
  moreover have "fst ` set props' = fst ` set props \<union> (\<lambda>c. name (h ! c)) ` set (c # cs)"
    using keys by (simp add: dom_update)
  moreover have "map_of props' = fold (\<lambda>c f. f(name (h ! c) \<mapsto> the (createNestedObject h c))) (c # cs) (map_of props)"
    using vals v by (simp add: update_conv')
  ultimately show ?case by blast
qed

lemma createNestedObject_subtree:
  assumes names: "\<And>a. a < length h \<Longrightarrow> name (h ! a) \<noteq> js ''__proto__''"
  shows "shape h t \<Longrightarrow> \<exists>v. createNestedObject h (rootOf t) = Some v"
proof (induction t)
  case (Node a ts)
  from Node.prems have a: "a < length h" and ch: "children (h ! a) = map rootOf ts"
    and sub: "\<And>t. t \<in> set ts \<Longrightarrow> shape h t" by simp_all
  show ?case
  proof (cases "children (h ! a) = []")
    case True
    from createNestedObject_leaf [OF this] show ?thesis by simp
  next
    case False
    have vals: "\<exists>v. createNestedObject h c = Some v" if "c \<in> set (children (h ! a))" for c
      using that Node.IH sub unfolding ch by auto
    have nms: "name (h ! c) \<noteq> js ''__proto__''" if "c \<in> set (children (h ! a))" for c
    proof -
      from that obtain t where "t \<in> set ts" "c = rootOf t" unfolding ch by auto
      with sub [of t] shape_root_lt [of h t] names show ?thesis by simp
    qed
    from nested_children_loop [of "children (h ! a)" h "[]", OF vals nms] obtain props' where
      "forEachM (\<lambda>child result. Option.bind (createNestedObject h child)
                 (\<lambda>v. Some (setProperty result (name (h ! child)) v)))
         (children (h ! a)) (JObject [] ObjectPrototype) = Some (JObject props' ObjectPrototype)"
      by blast
    then have "createNestedObject h a = Some (JObject props' ObjectPrototype)"
      using False by (subst createNestedObject.simps) simp
    then show ?thesis by simp
  qed
qed

text \<open>
  Nested JSON on a well-formed tree in which no node is named \<open>__proto__\<close>:
  \<open>createNestedObject\<close> returns for every node; a node without children is mapped to
  \<open>null\<close>, or to the empty object when its name contains \<open>dir\<close>; a node with children
  is mapped to an object whose keys are the names of its children, each bound to the
  representation of the child of that name (the last one, when several children share a
  name); and the object handed to \<open>JSON.stringify\<close> has the name of the root as its only
  key.
\<close>

lemma nested_json_without_proto:
  assumes wf: "wellFormed h root"
    and names: "\<And>a. a < length h \<Longrightarrow> name (h ! a) \<noteq> js ''__proto__''"
    and a: "a < length h"
  shows "\<exists>v. createNestedObject h a = Some v \<and>
      (children (h ! a) = [] \<longrightarrow>
         v = (if includesStr (name (h ! a)) (js ''dir'') then JObject [] ObjectPrototype else JNull)) \<and>
      (children (h ! a) \<noteq> [] \<longrightarrow>
         ownKeys v = (\<lambda>c. name (h ! c)) ` set (children (h ! a)) \<and>
         ownValue v = fold (\<lambda>c f. f(name (h ! c) \<mapsto> the (createNestedObject h c)))
                        (children (h ! a)) Map.empty) \<and>
      (\<exists>w. nestedRootObj h (Some root) = Some (Inr (JObject [(name (h ! root), w)] ObjectPrototype)) \<and>
           createNestedObject h root = Some w)"
proof -
  have defined: "\<exists>v. createNestedObject h c = Some v" if "c < length h" for c
  proof -
    from tree_exists [OF wf that] obtain t where "rootOf t = c" "shape h t" by blast
    with createNestedObject_subtree [OF names, of t] show ?thesis by simp
  qed
  have rootobj: "\<exists>w. nestedRootObj h (Some root) = Some (Inr (JObject [(name (h ! root), w)] ObjectPrototype)) \<and>
           createNestedObject h root = Some w"
  proof -
    from wf_root [OF wf] have r: "root < length h" by simp
    from defined [OF r] obtain w where w: "createNestedObject h root = Some w" by blast
    with names [OF r] show ?thesis
      by (simp add: nestedRootObj_def setProperty_plain del: setProperty.simps)
  qed
  show ?thesis
  proof (cases "children (h ! a) = []")
    case True
    from createNestedObject_leaf [OF this] True rootobj show ?thesis by simp
  next
    case False
    have vals: "\<exists>v. createNestedObject h c = Some v" if "c \<in> set (children (h ! a))" for c
      using wf_children [OF wf a] that defined by blast
    have nms: "name (h ! c) \<noteq> js ''__proto__''" if "c \<in> set (children (h ! a))" for c
      using wf_children [OF wf a] that names by blast
    have "\<exists>props'.
       forEachM (\<lambda>child result. Option.bind (createNestedObject h child)
                 (\<lambda>v. Some (setProperty result (name (h ! child)) v)))
         (children (h ! a)) (JObject [] ObjectPrototype) = Some (JObject props' ObjectPrototype) \<and>
       fst ` set props' = fst ` set ([] :: (jsstring \<times> jsvalue) list) \<union> (\<lambda>c. name (h ! c)) ` set (children (h ! a)) \<and>
       map_of props' = fold (\<lambda>c f. f(name (h ! c) \<mapsto> the (createNestedObject h c)))
                        (children (h ! a)) (map_of [])"
      by (rule nested_children_loop [OF vals nms])
    then obtain props' where
      run: "forEachM (\<lambda>child result. Option.bind (createNestedObject h child)
                 (\<lambda>v. Some (setProperty result (name (h ! child)) v)))
         (children (h ! a)) (JObject [] ObjectPrototype) = Some (JObject props' ObjectPrototype)"
      and keys: "fst ` set props' = fst ` set ([] :: (jsstring \<times> jsvalue) list) \<union> (\<lambda>c. name (h ! c)) ` set (children (h ! a))"
      and vs: "map_of props' = fold (\<lambda>c f. f(name (h ! c) \<mapsto> the (createNestedObject h c)))
                        (children (h ! a)) (map_of [])"
      by (elim exE conjE) (rule that, assumption+)
    from run have "createNestedObject h a = Some (JObject props' ObjectPrototype)"
      using False by (subst createNestedObject.simps) simp
    moreover have "ownValue (JObject props' ObjectPrototype) = map_of props'"
      by (rule ext) simp
    ultimately show ?thesis using False keys vs rootobj by simp
  qed
qed

text \<open>
  C5 at the lines \<open>a\<close>, \<open>  __proto__\<close>: the node \<open>a\<close> has one child, named \<open>__proto__\<close>,
  whose own representation is \<open>null\<close>; the object built for \<open>a\<close> has no key at all (the
  assignment replaced its prototype), so the output is the object with the key of the
  root over the object with the key \<open>a\<close> over an empty object.
\<close>

theorem C5_proto_child_lost:
  "(case parseInput protoInput of
      Inl e \<Rightarrow> False
    | Inr (h, root) \<Rightarrow>
        children (h ! 1) = [2] \<and> name (h ! 1) = js ''a'' \<and> name (h ! 2) = js ''__proto__'' \<and>
        createNestedObject h 2 = Some JNull \<and>
        createNestedObject h 1 = Some (JObject [] JNull) \<and>
        ownKeys (JObject [] JNull) = {} \<and>
        nestedRootObj h (Some root)
          = Some (Inr (JObject [(js ''.'', JObject [(js ''a'', JObject [] JNull)] ObjectPrototype)]
                         ObjectPrototype)))"
  by code_simp

end
